theory Spec2Isabelle
  imports
    Main
    "HOL-Library.AList"
    "HOL-Library.Char_ord"
    "HOL-Library.List_Lexorder"
    "HOL-Library.Multiset"
    "HOL-Library.Word"
begin

section \<open>Paths: the parts of path/filepath and strconv that the finding package calls\<close>

text \<open>
  Paths are Go strings, that is byte strings; the separator is the slash (the Unix build).
  \<open>filepath.Clean\<close>, \<open>filepath.Join\<close>, \<open>filepath.Dir\<close> and \<open>filepath.Rel\<close> are lexical
  functions of the standard library and are written out here on the list of path
  elements.
\<close>

type_synonym path = string

fun split_sep :: "string \<Rightarrow> string list" where
  "split_sep [] = [[]]"
| "split_sep (c # cs) =
     (if c = CHR ''/'' then [] # split_sep cs
      else (case split_sep cs of [] \<Rightarrow> [[c]] | x # xs \<Rightarrow> (c # x) # xs))"

fun join_sep :: "string list \<Rightarrow> string" where
  "join_sep [] = []"
| "join_sep [x] = x"
| "join_sep (x # y # ys) = x @ ''/'' @ join_sep (y # ys)"

text \<open>
  One step of \<open>Clean\<close> on the stack of elements kept so far (top first): empty elements
  and \<open>.\<close> are dropped, \<open>..\<close> removes the element before it, is dropped at the root and is
  kept at the start of a relative path.
\<close>

definition clean_step :: "bool \<Rightarrow> string list \<Rightarrow> string \<Rightarrow> string list" where
  "clean_step rooted st c =
     (if c = [] \<or> c = ''.'' then st
      else if c = ''..'' then
        (case st of
           [] \<Rightarrow> (if rooted then [] else [''..''])
         | t # ts \<Rightarrow> (if t = ''..'' then ''..'' # t # ts else ts))
      else c # st)"

definition is_rooted :: "string \<Rightarrow> bool" where
  "is_rooted p = (case p of [] \<Rightarrow> False | c # _ \<Rightarrow> c = CHR ''/'')"

definition filepath_Clean :: "path \<Rightarrow> path" where
  "filepath_Clean p =
     (let rooted = is_rooted p;
          out = (if rooted then ''/'' else []) @
                join_sep (rev (foldl (clean_step rooted) [] (split_sep p)))
      in if out = [] then ''.'' else out)"

text \<open>\<open>Join\<close> skips the leading empty elements, joins the rest with slashes and cleans.\<close>

definition filepath_Join :: "string list \<Rightarrow> path" where
  "filepath_Join elem =
     (case dropWhile (\<lambda>e. e = []) elem of
        [] \<Rightarrow> []
      | es \<Rightarrow> filepath_Clean (join_sep es))"

definition filepath_Dir :: "path \<Rightarrow> path" where
  "filepath_Dir p = filepath_Clean (rev (dropWhile (\<lambda>c. c \<noteq> CHR ''/'') (rev p)))"

text \<open>The elements of a cleaned path; the root alone has the one empty element.\<close>

definition elements :: "path \<Rightarrow> string list" where
  "elements p = (if p = [] then [] else if p = ''/'' then [[]] else split_sep p)"

fun strip_common :: "string list \<Rightarrow> string list \<Rightarrow> string list \<times> string list \<times> bool" where
  "strip_common (b # bs) (t # ts) =
     (if b = t then strip_common bs ts else (b # bs, t # ts, True))"
| "strip_common bs ts = (bs, ts, False)"

section \<open>Errors\<close>

datatype errno = ENOENT | EINVAL | EISDIR | ENOTDIR | ENOTEMPTY | EINTR | EBADF

text \<open>
  Modelled from the spec: the helpers \<open>WrapAlreadyExistsError\<close> and \<open>WrapNotExistError\<close>
  of the finding package are not part of the sources at hand. Following the spec
  (section 7 and the design note on the error taxonomy), AlreadyExists and NotExist are
  variants of their own, each wrapping the error it was made from, beside the generic
  failures of the operating system and of the JSON encoder. \<open>errors.WithStack\<close> only
  attaches a stack trace, so it is the identity here.
\<close>

datatype error =
    SyscallError errno
  | Errorf string
  | RelError path path
  | UnsupportedValueError
  | MarshalerError
  | AlreadyExistsError error
  | NotExistError error

definition WrapAlreadyExistsError :: "error \<Rightarrow> error" where
  "WrapAlreadyExistsError e = AlreadyExistsError e"

definition WrapNotExistError :: "error \<Rightarrow> error" where
  "WrapNotExistError e = NotExistError e"

definition errors_WithStack :: "error option \<Rightarrow> error option" where
  "errors_WithStack e = e"

fun os_IsNotExist :: "error \<Rightarrow> bool" where
  "os_IsNotExist (SyscallError ENOENT) = True"
| "os_IsNotExist _ = False"

fun IsAlreadyExistsError :: "error \<Rightarrow> bool" where
  "IsAlreadyExistsError (AlreadyExistsError _) = True"
| "IsAlreadyExistsError _ = False"

text \<open>
  \<open>Rel\<close> cleans both paths, refuses to relate a rooted and an unrooted path, drops the
  common leading elements and climbs out of what is left of the base. The base element
  at which the two paths part must not be \<open>..\<close>.
\<close>

definition filepath_Rel :: "path \<Rightarrow> path \<Rightarrow> error + path" where
  "filepath_Rel basepath targpath =
     (let base = filepath_Clean basepath;
          targ = filepath_Clean targpath
      in if targ = base then Inr ''.''
         else
           (let base = (if base = ''.'' then [] else base)
            in if is_rooted base \<noteq> is_rooted targ then Inl (RelError targpath basepath)
               else
                 (case strip_common (elements base) (elements targ) of
                    (bs, ts, parted) \<Rightarrow>
                      if parted \<and> hd bs = ''..'' then Inl (RelError targpath basepath)
                      else if bs \<noteq> [] then
                        Inr (join_sep (replicate (length bs) ''..'' @ ts))
                      else Inr (join_sep ts))))"

text \<open>
  \<open>strconv.Itoa\<close> on the slot counter. The counter starts at 1 and is only incremented,
  and reaching the limit of Go's 64-bit \<open>int\<close> would take that many slot files, so the
  counter is a natural number.
\<close>

definition digit :: "nat \<Rightarrow> char" where
  "digit d = ''0123456789'' ! d"

fun strconv_Itoa :: "nat \<Rightarrow> string" where
  "strconv_Itoa n =
     (if n < 10 then [digit n] else strconv_Itoa (n div 10) @ [digit (n mod 10)])"

declare strconv_Itoa.simps [simp del]

text \<open>
  \<open>strings.ReplaceAll\<close>: the instances of \<open>old\<close> are found from the left and do not
  overlap. For an empty \<open>old\<close> Go inserts \<open>new\<close> before every UTF-8 sequence and at
  the end; the model does so before every byte, which is the same on ASCII text.
\<close>

fun insert_everywhere :: "string \<Rightarrow> string \<Rightarrow> string" where
  "insert_everywhere new [] = new"
| "insert_everywhere new (c # cs) = new @ c # insert_everywhere new cs"

function replace_from :: "string \<Rightarrow> string \<Rightarrow> string \<Rightarrow> string" where
  "replace_from old new s =
     (if s = [] then []
      else if old \<noteq> [] \<and> take (length old) s = old
        then new @ replace_from old new (drop (length old) s)
      else hd s # replace_from old new (tl s))"
  by pat_completeness auto
termination
  by (relation "measure (\<lambda>(old, new, s). length s)") (auto simp: neq_Nil_conv)

declare replace_from.simps [simp del]

definition strings_ReplaceAll :: "string \<Rightarrow> string \<Rightarrow> string \<Rightarrow> string" where
  "strings_ReplaceAll s old new =
     (if old = [] then insert_everywhere new s else replace_from old new s)"

definition strings_Contains :: "string \<Rightarrow> string \<Rightarrow> bool" where
  "strings_Contains s substr =
     list_ex (\<lambda>i. take (length substr) (drop i s) = substr) [0..<Suc (length s)]"

section \<open>The file system and the other services of the operating system\<close>

text \<open>
  The file system maps the absolute, cleaned path of every regular file and directory
  to its node; it is an association list, so that a directory can be listed. Symbolic
  links, permissions and mount points are not part of the model. A relative path is
  resolved against the working directory. The trace records what the program logs
  and its calls to lock and unlock; \<open>lock_fails\<close> and \<open>unlock_fails\<close> say whether the
  operating system refuses the next \<open>flock\<close> calls.
\<close>

datatype node = File string | Dir

datatype event = Locked path | UnlockCalled path | LogError error | LogDebug string

record world =
  fs :: "(path \<times> node) list"
  workdir :: path
  lock_fails :: bool
  unlock_fails :: bool
  events :: "event list"

definition abs_path :: "path \<Rightarrow> path \<Rightarrow> path" where
  "abs_path wd p = (if is_rooted p then filepath_Clean p else filepath_Join [wd, p])"

text \<open>The system calls refuse an empty path (ENOENT) and a path with a NUL byte (EINVAL).\<close>

definition path_check :: "path \<Rightarrow> errno option" where
  "path_check p =
     (if p = [] then Some ENOENT
      else if CHR 0x00 \<in> set p then Some EINVAL
      else None)"

definition lookup :: "world \<Rightarrow> path \<Rightarrow> node option" where
  "lookup w p = map_of (fs w) (abs_path (workdir w) p)"

definition os_Stat :: "world \<Rightarrow> path \<Rightarrow> error + node" where
  "os_Stat w p =
     (case path_check p of
        Some e \<Rightarrow> Inl (SyscallError e)
      | None \<Rightarrow>
          (case lookup w p of
             None \<Rightarrow> Inl (SyscallError ENOENT)
           | Some n \<Rightarrow> Inr n))"

text \<open>
  Modelled from the spec: \<open>fileutil.Exists\<close> and \<open>sliceutil.Equal\<close> belong to packages
  of the repository that are not among the sources at hand. \<open>Exists\<close> tells whether a
  file or directory is there: a path that does not exist is \<open>false\<close> and no error, any
  other failure of the status call is the error. \<open>Equal\<close> compares two byte slices.
\<close>

definition fileutil_Exists :: "world \<Rightarrow> path \<Rightarrow> error + bool" where
  "fileutil_Exists w p =
     (case os_Stat w p of
        Inr _ \<Rightarrow> Inr True
      | Inl e \<Rightarrow> (if os_IsNotExist e then Inr False else Inl e))"

definition sliceutil_Equal :: "string \<Rightarrow> string \<Rightarrow> bool" where
  "sliceutil_Equal a b = (a = b)"

definition os_ReadFile :: "world \<Rightarrow> path \<Rightarrow> error + string" where
  "os_ReadFile w p =
     (case os_Stat w p of
        Inl e \<Rightarrow> Inl e
      | Inr Dir \<Rightarrow> Inl (SyscallError EISDIR)
      | Inr (File b) \<Rightarrow> Inr b)"

definition os_WriteFile :: "path \<Rightarrow> string \<Rightarrow> world \<Rightarrow> error option \<times> world" where
  "os_WriteFile p data w =
     (case path_check p of
        Some e \<Rightarrow> (Some (SyscallError e), w)
      | None \<Rightarrow>
          (case lookup w p of
             Some Dir \<Rightarrow> (Some (SyscallError EISDIR), w)
           | _ \<Rightarrow> (None, w\<lparr>fs := AList.update (abs_path (workdir w) p) (File data) (fs w)\<rparr>)))"

text \<open>
  \<open>MkdirAll\<close> returns at once when the path is a directory and fails when it is a
  file; otherwise it sees to the directories above the path, from the top down, failing
  at a regular file on the way, and then makes the directory itself.
\<close>

definition ancestors :: "path \<Rightarrow> path list" where
  "ancestors k =
     (let es = filter (\<lambda>e. e \<noteq> []) (split_sep k)
      in map (\<lambda>n. (if is_rooted k then ''/'' else []) @ join_sep (take n es))
             [1..<length es])"

fun mkdir_walk :: "(path \<times> node) list \<Rightarrow> path list \<Rightarrow> error option \<times> (path \<times> node) list" where
  "mkdir_walk t [] = (None, t)"
| "mkdir_walk t (q # qs) =
     (case map_of t q of
        Some (File _) \<Rightarrow> (Some (SyscallError ENOTDIR), t)
      | Some Dir \<Rightarrow> mkdir_walk t qs
      | None \<Rightarrow> mkdir_walk (AList.update q Dir t) qs)"

definition os_MkdirAll :: "path \<Rightarrow> world \<Rightarrow> error option \<times> world" where
  "os_MkdirAll p w =
     (case path_check p of
        Some e \<Rightarrow> (Some (SyscallError e), w)
      | None \<Rightarrow>
          (case lookup w p of
             Some Dir \<Rightarrow> (None, w)
           | Some (File _) \<Rightarrow> (Some (SyscallError ENOTDIR), w)
           | None \<Rightarrow>
               (case mkdir_walk (fs w) (ancestors (abs_path (workdir w) p)) of
                  (Some e, t) \<Rightarrow> (Some e, w\<lparr>fs := t\<rparr>)
                | (None, t) \<Rightarrow>
                    (None, w\<lparr>fs := AList.update (abs_path (workdir w) p) Dir t\<rparr>))))"

text \<open>A path lies below a directory when it extends the directory's path and a slash.\<close>

definition dir_slash :: "path \<Rightarrow> path" where
  "dir_slash k = (if k = ''/'' then k else k @ ''/'')"

definition below :: "path \<Rightarrow> path \<Rightarrow> bool" where
  "below k q = (length (dir_slash k) < length q \<and> take (length (dir_slash k)) q = dir_slash k)"

definition os_Remove :: "path \<Rightarrow> world \<Rightarrow> error option \<times> world" where
  "os_Remove p w =
     (case path_check p of
        Some e \<Rightarrow> (Some (SyscallError e), w)
      | None \<Rightarrow>
          (let k = abs_path (workdir w) p
           in case lookup w p of
                None \<Rightarrow> (Some (SyscallError ENOENT), w)
              | Some (File _) \<Rightarrow> (None, w\<lparr>fs := AList.delete k (fs w)\<rparr>)
              | Some Dir \<Rightarrow>
                  (if list_ex (\<lambda>(q, n). below k q) (fs w)
                   then (Some (SyscallError ENOTEMPTY), w)
                   else (None, w\<lparr>fs := AList.delete k (fs w)\<rparr>))))"

definition os_Getwd :: "world \<Rightarrow> error + path" where
  "os_Getwd w =
     (if map_of (fs w) (workdir w) = Some Dir then Inr (workdir w) else Inl (SyscallError ENOENT))"

text \<open>\<open>ReadDir\<close> lists the names of the entries of a directory, sorted by name.\<close>

definition entry_names :: "(path \<times> node) list \<Rightarrow> path \<Rightarrow> string list" where
  "entry_names t k =
     sort (remdups
       (map (\<lambda>(q, n). drop (length (dir_slash k)) q)
         (filter (\<lambda>(q, n). below k q \<and> CHR ''/'' \<notin> set (drop (length (dir_slash k)) q)) t)))"

definition os_ReadDir :: "world \<Rightarrow> path \<Rightarrow> error + string list" where
  "os_ReadDir w p =
     (case os_Stat w p of
        Inl e \<Rightarrow> Inl e
      | Inr (File _) \<Rightarrow> Inl (SyscallError ENOTDIR)
      | Inr Dir \<Rightarrow> Inr (entry_names (fs w) (abs_path (workdir w) p)))"

text \<open>
  \<open>copy.Copy\<close> of the library otiai10/copy. A regular file is copied by making the
  directory of the destination and writing the bytes of the source there. A directory
  is copied with everything below it: the destination is made a directory, and every
  node below the source is put at the same place below the destination, directories
  first since a path sorts before the paths below it.
\<close>

definition fcopy :: "string \<Rightarrow> path \<Rightarrow> world \<Rightarrow> error option \<times> world" where
  "fcopy b dest w =
     (case os_MkdirAll (filepath_Dir dest) w of
        (Some e, w') \<Rightarrow> (Some e, w')
      | (None, w') \<Rightarrow> os_WriteFile dest b w')"

fun copy_nodes :: "path \<Rightarrow> path \<Rightarrow> (path \<times> node) list \<Rightarrow> world \<Rightarrow> error option \<times> world" where
  "copy_nodes srckey destkey [] w = (None, w)"
| "copy_nodes srckey destkey ((q, n) # rest) w =
     (case (case n of
              Dir \<Rightarrow> os_MkdirAll (destkey @ drop (length srckey) q) w
            | File b \<Rightarrow> fcopy b (destkey @ drop (length srckey) q) w) of
        (Some e, w') \<Rightarrow> (Some e, w')
      | (None, w') \<Rightarrow> copy_nodes srckey destkey rest w')"

definition dcopy :: "path \<Rightarrow> path \<Rightarrow> world \<Rightarrow> error option \<times> world" where
  "dcopy src dest w =
     (case os_MkdirAll dest w of
        (Some e, w') \<Rightarrow> (Some e, w')
      | (None, w') \<Rightarrow>
          (let srckey = abs_path (workdir w) src; destkey = abs_path (workdir w) dest
           in copy_nodes (dir_slash srckey) (dir_slash destkey)
                (sort_key fst (filter (\<lambda>(q, n). below srckey q) (fs w))) w'))"

definition copy_Copy :: "path \<Rightarrow> path \<Rightarrow> world \<Rightarrow> error option \<times> world" where
  "copy_Copy src dest w =
     (case os_Stat w src of
        Inl e \<Rightarrow> (Some e, w)
      | Inr (File b) \<Rightarrow> fcopy b dest w
      | Inr Dir \<Rightarrow> dcopy src dest w)"

text \<open>
  The library go-filemutex: \<open>New\<close> opens the lock file and creates it empty when it is
  not there; \<open>Lock\<close> and \<open>Unlock\<close> are \<open>flock\<close> calls on it. The mutex is named by
  the path of its file.
\<close>

definition filemutex_New :: "path \<Rightarrow> world \<Rightarrow> error option \<times> world" where
  "filemutex_New p w =
     (case path_check p of
        Some e \<Rightarrow> (Some (SyscallError e), w)
      | None \<Rightarrow>
          (case lookup w p of
             None \<Rightarrow> (None, w\<lparr>fs := AList.update (abs_path (workdir w) p) (File []) (fs w)\<rparr>)
           | Some _ \<Rightarrow> (None, w)))"

definition mutex_Lock :: "path \<Rightarrow> world \<Rightarrow> error option \<times> world" where
  "mutex_Lock m w =
     (if lock_fails w then (Some (SyscallError EINTR), w)
      else (None, w\<lparr>events := events w @ [Locked m]\<rparr>))"

definition mutex_Unlock :: "path \<Rightarrow> world \<Rightarrow> error option \<times> world" where
  "mutex_Unlock m w =
     ((if unlock_fails w then Some (SyscallError EBADF) else None),
      w\<lparr>events := events w @ [UnlockCalled m]\<rparr>)"

definition log_Error :: "error \<Rightarrow> world \<Rightarrow> world" where
  "log_Error e w = w\<lparr>events := events w @ [LogError e]\<rparr>"

definition log_Debugf :: "string \<Rightarrow> world \<Rightarrow> world" where
  "log_Debugf msg w = w\<lparr>events := events w @ [LogDebug msg]\<rparr>"

section \<open>Facts about paths, needed to see that the search for a slot ends\<close>

definition simple_elem :: "string \<Rightarrow> bool" where
  "simple_elem t = (t \<noteq> [] \<and> CHR ''/'' \<notin> set t \<and> t \<noteq> ''.'' \<and> t \<noteq> ''..'')"

text \<open>What \<open>Clean\<close> makes of a path up to the start of its last element.\<close>

definition clean_prefix :: "string \<Rightarrow> string" where
  "clean_prefix u =
     (if is_rooted u then ''/'' else []) @
     concat (map (\<lambda>y. y @ ''/'')
       (rev (foldl (clean_step (is_rooted u)) [] (butlast (split_sep u))))) @
     last (split_sep u)"

definition with_slash :: "path \<Rightarrow> path" where
  "with_slash d = (if d = [] then [] else d @ ''/'')"

definition abs_prefix :: "path \<Rightarrow> path \<Rightarrow> path" where
  "abs_prefix wd v = (if is_rooted v then clean_prefix v else clean_prefix (with_slash wd @ v))"

lemma split_sep_not_Nil [simp]: "split_sep s \<noteq> []"
  by (induction s) (auto split: list.splits)

lemma split_sep_no_sep: "CHR ''/'' \<notin> set t \<Longrightarrow> split_sep t = [t]"
  by (induction t) auto

lemma split_sep_append:
  "CHR ''/'' \<notin> set t \<Longrightarrow>
   split_sep (u @ t) = butlast (split_sep u) @ [last (split_sep u) @ t]"
proof (induction u)
  case Nil
  then show ?case by (simp add: split_sep_no_sep)
next
  case (Cons c u)
  then show ?case
    by (cases "split_sep u") (auto split: list.splits)
qed

lemma join_sep_snoc:
  "join_sep (ys @ [z]) = concat (map (\<lambda>y. y @ ''/'') ys) @ z"
  by (induction ys rule: join_sep.induct) auto

lemma simple_elem_append:
  "simple_elem t \<Longrightarrow> l @ t \<noteq> [] \<and> l @ t \<noteq> ''.'' \<and> l @ t \<noteq> ''..''"
  by (auto simp: simple_elem_def append_eq_Cons_conv Cons_eq_append_conv)

lemma is_rooted_append:
  "simple_elem t \<Longrightarrow> is_rooted (u @ t) = is_rooted u"
  by (cases u; cases t) (auto simp: is_rooted_def simple_elem_def)

lemma Clean_append_simple:
  assumes "simple_elem t"
  shows "filepath_Clean (u @ t) = clean_prefix u @ t"
proof -
  have ns: "CHR ''/'' \<notin> set t" using assms by (simp add: simple_elem_def)
  let ?l = "last (split_sep u)"
  have st: "clean_step r st (?l @ t) = (?l @ t) # st" for r st
    using simple_elem_append[OF assms, of ?l] by (simp add: clean_step_def)
  have "t \<noteq> []" using assms by (simp add: simple_elem_def)
  then show ?thesis
    by (simp add: filepath_Clean_def Let_def split_sep_append[OF ns] st
        is_rooted_append[OF assms] join_sep_snoc clean_prefix_def)
qed

lemma Join_append_simple:
  assumes "simple_elem t"
  shows "filepath_Join [d, e @ t] = clean_prefix (with_slash d @ e) @ t"
proof -
  have "t \<noteq> []" using assms by (simp add: simple_elem_def)
  then show ?thesis
    using Clean_append_simple[OF assms, of "d @ ''/'' @ e"] Clean_append_simple[OF assms, of e]
    by (simp add: filepath_Join_def with_slash_def)
qed

lemma abs_path_append_simple:
  assumes "simple_elem t"
  shows "abs_path wd (v @ t) = abs_prefix wd v @ t"
  using Join_append_simple[OF assms, of wd v] Clean_append_simple[OF assms, of v]
  by (simp add: abs_path_def abs_prefix_def is_rooted_append[OF assms])

lemma digit_chars: "d < 10 \<Longrightarrow> digit d \<in> set ''0123456789''"
  using nth_mem[of d "''0123456789''"] by (simp add: digit_def)

lemma digit_inj: "a < 10 \<Longrightarrow> b < 10 \<Longrightarrow> digit a = digit b \<Longrightarrow> a = b"
proof -
  assume "a < 10" "b < 10" "digit a = digit b"
  moreover have "distinct ''0123456789''" by simp
  ultimately show ?thesis
    unfolding digit_def by (simp add: nth_eq_iff_index_eq)
qed

lemma Itoa_not_Nil [simp]: "strconv_Itoa n \<noteq> []"
  by (subst strconv_Itoa.simps) simp

lemma Itoa_digits: "set (strconv_Itoa n) \<subseteq> set ''0123456789''"
proof (induction n rule: strconv_Itoa.induct)
  case (1 n)
  show ?case
  proof (cases "n < 10")
    case True
    then show ?thesis using digit_chars[of n] by (subst strconv_Itoa.simps) simp
  next
    case False
    moreover have "digit (n mod 10) \<in> set ''0123456789''" by (rule digit_chars) simp
    ultimately show ?thesis using 1 by (subst strconv_Itoa.simps) auto
  qed
qed

lemma Itoa_inj: "strconv_Itoa n = strconv_Itoa m \<Longrightarrow> n = m"
proof (induction n arbitrary: m rule: strconv_Itoa.induct)
  case (1 n)
  show ?case
  proof (cases "n < 10")
    case n: True
    show ?thesis
    proof (cases "m < 10")
      case True
      with n 1(2) show ?thesis
        by (simp add: strconv_Itoa.simps[of n] strconv_Itoa.simps[of m] digit_inj)
    next
      case False
      with n 1(2) show ?thesis
        using Itoa_not_Nil[of "m div 10"]
        by (auto simp add: strconv_Itoa.simps[of n] strconv_Itoa.simps[of m])
    qed
  next
    case n: False
    show ?thesis
    proof (cases "m < 10")
      case True
      with n 1(2) show ?thesis
        using Itoa_not_Nil[of "n div 10"]
        by (auto simp add: strconv_Itoa.simps[of n] strconv_Itoa.simps[of m])
    next
      case False
      with n 1(2) have "strconv_Itoa (n div 10) = strconv_Itoa (m div 10)"
        and "digit (n mod 10) = digit (m mod 10)"
        by (simp_all add: strconv_Itoa.simps[of n] strconv_Itoa.simps[of m])
      then have "n div 10 = m div 10" "n mod 10 = m mod 10"
        using 1(1)[OF n] by (auto intro: digit_inj)
      then show ?thesis by (metis div_mult_mod_eq)
    qed
  qed
qed

section \<open>The finding record and its JSON encoding\<close>

definition nameCrashingInput :: string where "nameCrashingInput = ''crashing-input''"
definition nameJsonFile :: string where "nameJsonFile = ''finding.json''"
definition nameFindingsDir :: string where "nameFindingsDir = ''.cifuzz-findings''"
definition lockFile :: string where "lockFile = ''.lock''"

type_synonym ErrorType = string

definition ErrorType_UNKNOWN_ERROR :: ErrorType where
  "ErrorType_UNKNOWN_ERROR = ''UNKNOWN_ERROR''"
definition ErrorType_COMPILATION_ERROR :: ErrorType where
  "ErrorType_COMPILATION_ERROR = ''COMPILATION_ERROR''"
definition ErrorType_CRASH :: ErrorType where
  "ErrorType_CRASH = ''CRASH''"
definition ErrorType_WARNING :: ErrorType where
  "ErrorType_WARNING = ''WARNING''"
definition ErrorType_RUNTIME_ERROR :: ErrorType where
  "ErrorType_RUNTIME_ERROR = ''RUNTIME_ERROR''"

datatype float32 = Float32 int int | NaN | Inf bool

type_synonym Time = int

text \<open>
  The type \<open>stacktrace.StackFrame\<close> belongs to a package that is not among the sources
  at hand, and nothing here looks into a frame: it is an opaque type. Equality on it is
  declared so that findings can be compared; no frame is ever built.
\<close>

typedecl StackFrame

instantiation StackFrame :: equal
begin

definition equal_StackFrame :: "StackFrame \<Rightarrow> StackFrame \<Rightarrow> bool" where
  "equal_StackFrame a b = (a = b)"

instance
  by standard (simp add: equal_StackFrame_def)

end

lemma equal_StackFrame_refl [code]: "HOL.equal (a :: StackFrame) a \<longleftrightarrow> True"
  by (simp add: equal_StackFrame_def)

record Severity =
  Description :: string
  Score :: float32

record ErrorDetails =
  Id :: string
  Name :: string
  Severity :: "Severity option"

record Finding =
  Name :: string
  Type :: ErrorType
  InputData :: string
  Logs :: "string list"
  Details :: string
  HumanReadableInput :: string
  MoreDetails :: "ErrorDetails option"
  Tag :: "64 word"
  ShortDescription :: string
  InputFile :: string
  CreatedAt :: Time
  StackTrace :: "StackFrame option list"
  seedPath :: string

text \<open>The zero value of the struct: what \<open>Finding{}\<close> is in Go.\<close>

definition empty_Finding :: Finding where
  "empty_Finding =
     \<lparr>Name = [], Type = [], InputData = [], Logs = [], Details = [],
      HumanReadableInput = [], MoreDetails = None, Tag = 0, ShortDescription = [],
      InputFile = [], CreatedAt = 0, StackTrace = [], seedPath = []\<rparr>"

text \<open>
  The value tree that \<open>encoding/json\<close> builds from the struct tags. A field tagged
  \<open>omitempty\<close> is left out when its value is empty, and empty means: a false boolean, a
  zero number, a nil pointer, and a string, slice or map of length zero. A struct is
  never empty, so the tag has no effect on \<open>CreatedAt\<close>, whose type \<open>time.Time\<close> is a
  struct. \<open>InputFile\<close> has no tag and is written under its Go name; \<open>seedPath\<close> is not
  exported and is not written. A floating-point number that is not finite cannot be
  encoded, and a time is encoded only when its year lies in 0..9999. The time is the
  number of nanoseconds since Go's zero time, the start of the year 1.
\<close>

datatype json =
    JNull
  | JString string
  | JBase64 string
  | JUint "64 word"
  | JFloat float32
  | JTime Time
  | JFrame StackFrame
  | JArray "json list"
  | JObject "(string \<times> json) list"

definition omitempty :: "bool \<Rightarrow> string \<Rightarrow> json \<Rightarrow> (string \<times> json) list" where
  "omitempty is_empty key v = (if is_empty then [] else [(key, v)])"

fun float32_is_zero :: "float32 \<Rightarrow> bool" where
  "float32_is_zero (Float32 m e) = (m = 0)"
| "float32_is_zero _ = False"

fun float32_json :: "float32 \<Rightarrow> error + json" where
  "float32_json (Float32 m e) = Inr (JFloat (Float32 m e))"
| "float32_json _ = Inl UnsupportedValueError"

definition nanoseconds_per_day :: int where
  "nanoseconds_per_day = 86400 * 1000000000"

definition Time_MarshalJSON :: "Time \<Rightarrow> error + json" where
  "Time_MarshalJSON t =
     (if - 366 * nanoseconds_per_day \<le> t \<and> t < 3652059 * nanoseconds_per_day
      then Inr (JTime t) else Inl MarshalerError)"

definition Severity_json :: "Severity \<Rightarrow> error + json" where
  "Severity_json s =
     (if float32_is_zero (Score s)
      then Inr (JObject (omitempty (Description s = []) ''description'' (JString (Description s))))
      else
        (case float32_json (Score s) of
           Inl e \<Rightarrow> Inl e
         | Inr j \<Rightarrow>
             Inr (JObject
               (omitempty (Description s = []) ''description'' (JString (Description s)) @
                [(''score'', j)]))))"

definition ErrorDetails_json :: "ErrorDetails \<Rightarrow> error + json" where
  "ErrorDetails_json d =
     (let front =
            omitempty (Id d = []) ''id'' (JString (Id d)) @
            omitempty (ErrorDetails.Name d = []) ''name'' (JString (ErrorDetails.Name d))
      in case Severity d of
           None \<Rightarrow> Inr (JObject front)
         | Some s \<Rightarrow>
             (case Severity_json s of
                Inl e \<Rightarrow> Inl e
              | Inr j \<Rightarrow> Inr (JObject (front @ [(''severity'', j)]))))"

definition StackFrame_json :: "StackFrame option \<Rightarrow> json" where
  "StackFrame_json fr = (case fr of None \<Rightarrow> JNull | Some x \<Rightarrow> JFrame x)"

definition Finding_json :: "Finding \<Rightarrow> error + json" where
  "Finding_json f =
     (case (case MoreDetails f of
              None \<Rightarrow> Inr []
            | Some d \<Rightarrow>
                (case ErrorDetails_json d of
                   Inl e \<Rightarrow> Inl e
                 | Inr j \<Rightarrow> Inr [(''more_details'', j)])) of
        Inl e \<Rightarrow> Inl e
      | Inr more_details \<Rightarrow>
          (case Time_MarshalJSON (CreatedAt f) of
             Inl e \<Rightarrow> Inl e
           | Inr created_at \<Rightarrow>
               Inr (JObject
                 (omitempty (Name f = []) ''name'' (JString (Name f)) @
                  omitempty (Type f = []) ''type'' (JString (Type f)) @
                  omitempty (InputData f = []) ''input_data'' (JBase64 (InputData f)) @
                  omitempty (Logs f = []) ''logs'' (JArray (map JString (Logs f))) @
                  omitempty (Details f = []) ''details'' (JString (Details f)) @
                  omitempty (HumanReadableInput f = []) ''human_readable_input''
                    (JString (HumanReadableInput f)) @
                  more_details @
                  omitempty (Tag f = 0) ''tag'' (JUint (Tag f)) @
                  omitempty (ShortDescription f = []) ''short_description''
                    (JString (ShortDescription f)) @
                  [(''InputFile'', JString (InputFile f))] @
                  [(''created_at'', created_at)] @
                  omitempty (StackTrace f = []) ''stack_trace''
                    (JArray (map StackFrame_json (StackTrace f)))))))"

text \<open>
  How the tree becomes bytes (indentation by two spaces, escaping of strings, base64,
  the RFC 3339 form of a time, the digits of a number) is the business of
  \<open>encoding/json\<close>; the printer \<open>render\<close> and the decoder \<open>unmarshal\<close> are parameters.
\<close>

definition json_MarshalIndent :: "(json \<Rightarrow> string) \<Rightarrow> Finding \<Rightarrow> error + string" where
  "json_MarshalIndent render f =
     (case Finding_json f of Inl e \<Rightarrow> Inl e | Inr j \<Rightarrow> Inr (render j))"

section \<open>The finding package\<close>

text \<open>The receiver of the two getters is a pointer; \<open>None\<close> is the nil pointer.\<close>

definition GetDetails :: "Finding option \<Rightarrow> string" where
  "GetDetails f = (case f of Some x \<Rightarrow> Details x | None \<Rightarrow> [])"

definition GetSeedPath :: "Finding option \<Rightarrow> string" where
  "GetSeedPath f = (case f of Some x \<Rightarrow> seedPath x | None \<Rightarrow> [])"

definition Exists :: "Finding \<Rightarrow> path \<Rightarrow> world \<Rightarrow> error + bool" where
  "Exists f projectDir w =
     fileutil_Exists w (filepath_Join [projectDir, nameFindingsDir, Name f, nameJsonFile])"

definition saveJson :: "(json \<Rightarrow> string) \<Rightarrow> Finding \<Rightarrow> path \<Rightarrow> world \<Rightarrow> error option \<times> world" where
  "saveJson render f jsonPath w =
     (case json_MarshalIndent render f of
        Inl err \<Rightarrow> (errors_WithStack (Some err), w)
      | Inr bytes \<Rightarrow>
          (case os_WriteFile jsonPath bytes w of
             (Some err, w') \<Rightarrow> (errors_WithStack (Some err), w')
           | (None, w') \<Rightarrow> (None, w')))"

definition Save :: "(json \<Rightarrow> string) \<Rightarrow> Finding \<Rightarrow> path \<Rightarrow> world \<Rightarrow> error option \<times> world" where
  "Save render f projectDir w =
     (let findingDir = filepath_Join [projectDir, nameFindingsDir, Name f]
      in case os_MkdirAll findingDir w of
           (Some err, w1) \<Rightarrow> (errors_WithStack (Some err), w1)
         | (None, w1) \<Rightarrow>
             (let jsonPath = filepath_Join [findingDir, nameJsonFile]
              in case fileutil_Exists w1 jsonPath of
                   Inl err \<Rightarrow> (Some err, w1)
                 | Inr True \<Rightarrow>
                     (Some (WrapAlreadyExistsError
                        (Errorf (''Finding '' @ Name f @ '' already exists''))), w1)
                 | Inr False \<Rightarrow> saveJson render f jsonPath w1))"

text \<open>
  The loop of \<open>moveInputFile\<close> that chooses the slot. It ends in an error, in the
  finding that the input is stored already, or at the first slot that does not exist.
\<close>

datatype slot_choice = Failed error | AlreadyStored | FreeSlot nat path

definition slot_path :: "path \<Rightarrow> nat \<Rightarrow> path" where
  "slot_path findingDir i =
     filepath_Join [findingDir, nameCrashingInput @ ''-'' @ strconv_Itoa i]"


lemma simple_slot_name: "simple_elem (nameCrashingInput @ ''-'' @ strconv_Itoa i)"
  using Itoa_digits[of i] by (auto simp: simple_elem_def nameCrashingInput_def)

definition slot_key_prefix :: "path \<Rightarrow> path \<Rightarrow> path" where
  "slot_key_prefix wd findingDir = abs_prefix wd (clean_prefix (with_slash findingDir))"

lemma slot_path_eq:
  "slot_path d i = clean_prefix (with_slash d) @ nameCrashingInput @ ''-'' @ strconv_Itoa i"
  using Join_append_simple[OF simple_slot_name, of d "[]" i] by (simp add: slot_path_def)

lemma slot_key_eq:
  "abs_path wd (slot_path d i) =
   slot_key_prefix wd d @ nameCrashingInput @ ''-'' @ strconv_Itoa i"
  using abs_path_append_simple[OF simple_slot_name, of wd "clean_prefix (with_slash d)" i]
  by (simp add: slot_path_eq slot_key_prefix_def)

lemma slot_key_inj: "abs_path wd (slot_path d i) = abs_path wd (slot_path d j) \<Longrightarrow> i = j"
  by (simp add: slot_key_eq Itoa_inj)

lemma finite_slots: "finite {k. abs_path wd (slot_path d k) \<in> fst ` set t}"
proof -
  have "inj (\<lambda>k. abs_path wd (slot_path d k))"
    by (rule injI) (rule slot_key_inj)
  then have "finite ((\<lambda>k. abs_path wd (slot_path d k)) -` (fst ` set t))"
    by (intro finite_vimageI) simp_all
  then show ?thesis by (simp add: vimage_def)
qed

lemma Exists_True_key:
  "fileutil_Exists w p = Inr True \<Longrightarrow> abs_path (workdir w) p \<in> fst ` set (fs w)"
  by (auto simp: fileutil_Exists_def os_Stat_def lookup_def dest!: map_of_SomeD
      split: sum.splits option.splits if_splits intro: rev_image_eqI)

lemma find_slot_decreases:
  assumes "fileutil_Exists w (slot_path d i) = Inr True"
  shows "card {k. i + 1 \<le> k \<and> abs_path (workdir w) (slot_path d k) \<in> fst ` set (fs w)}
       < card {k. i \<le> k \<and> abs_path (workdir w) (slot_path d k) \<in> fst ` set (fs w)}"
proof -
  let ?S = "\<lambda>j. {k. j \<le> k \<and> abs_path (workdir w) (slot_path d k) \<in> fst ` set (fs w)}"
  have here: "abs_path (workdir w) (slot_path d i) \<in> fst ` set (fs w)"
    using Exists_True_key[OF assms] .
  have fin: "finite (?S i)"
    using finite_slots[of "workdir w" d "fs w"] by simp
  have "i \<in> ?S i" "i \<notin> ?S (i + 1)" "?S (i + 1) \<subseteq> ?S i"
    using here by auto
  then have "?S (i + 1) \<subset> ?S i"
    by blast
  then show ?thesis
    using fin by (rule psubset_card_mono[rotated])
qed

function find_slot :: "world \<Rightarrow> path \<Rightarrow> path \<Rightarrow> nat \<Rightarrow> slot_choice" where
  "find_slot w findingDir inputFile i =
     (let path = filepath_Join [findingDir, nameCrashingInput @ ''-'' @ strconv_Itoa i]
      in case fileutil_Exists w path of
           Inl err \<Rightarrow> Failed err
         | Inr False \<Rightarrow> FreeSlot i path
         | Inr True \<Rightarrow>
             (case os_ReadFile w path of
                Inl err \<Rightarrow> Failed err
              | Inr contentExistingFile \<Rightarrow>
                  (case os_ReadFile w inputFile of
                     Inl err \<Rightarrow> Failed err
                   | Inr contentNewFile \<Rightarrow>
                       if sliceutil_Equal contentExistingFile contentNewFile
                       then AlreadyStored
                       else find_slot w findingDir inputFile (i + 1))))"
  by pat_completeness auto
termination
proof (relation "measure (\<lambda>(w, d, inp, i).
         card {k. i \<le> k \<and> abs_path (workdir w) (slot_path d k) \<in> fst ` set (fs w)})", goal_cases)
  case 1
  show ?case by simp
next
  case (2 w findingDir inputFile i x b ba bb)
  then have "fileutil_Exists w (slot_path findingDir i) = Inr True"
    by (simp add: slot_path_def)
  from find_slot_decreases[OF this] show ?case by simp
qed

declare find_slot.simps [simp del]


text \<open>
  \<open>moveInputFile\<close> changes the finding it is called on, so the model returns the
  finding with the world; both are returned as they stand at the moment of an error too.
\<close>

definition moveInputFile ::
    "Finding \<Rightarrow> path \<Rightarrow> path \<Rightarrow> world \<Rightarrow> error option \<times> Finding \<times> world" where
  "moveInputFile f projectDir seedCorpusDir w =
     (let findingDir = filepath_Join [projectDir, nameFindingsDir, Name f]
      in case find_slot w findingDir (InputFile f) 1 of
           Failed err \<Rightarrow> (Some err, f, w)
         | AlreadyStored \<Rightarrow> (None, f, w)
         | FreeSlot i path \<Rightarrow>
             (case copy_Copy (InputFile f) path w of
                (Some err, w1) \<Rightarrow> (errors_WithStack (Some err), f, w1)
              | (None, w1) \<Rightarrow>
                  (case os_MkdirAll seedCorpusDir w1 of
                     (Some err, w2) \<Rightarrow> (errors_WithStack (Some err), f, w2)
                   | (None, w2) \<Rightarrow>
                       (let f1 = f\<lparr>seedPath :=
                                    filepath_Join [seedCorpusDir, Name f @ ''-'' @ strconv_Itoa i]\<rparr>
                        in case copy_Copy (InputFile f1) (seedPath f1) w2 of
                             (Some err, w3) \<Rightarrow> (errors_WithStack (Some err), f1, w3)
                           | (None, w3) \<Rightarrow>
                               (case os_Remove (InputFile f1) w3 of
                                  (Some err, w4) \<Rightarrow> (errors_WithStack (Some err), f1, w4)
                                | (None, w4) \<Rightarrow>
                                    (case os_Getwd w4 of
                                       Inl err \<Rightarrow> (errors_WithStack (Some err), f1, w4)
                                     | Inr cwd \<Rightarrow>
                                         (case filepath_Rel cwd path of
                                            Inl err \<Rightarrow> (errors_WithStack (Some err), f1, w4)
                                          | Inr relPath \<Rightarrow>
                                              (let f2 = f1\<lparr>Logs :=
                                                     map (\<lambda>line. strings_ReplaceAll line (InputFile f1) relPath)
                                                       (Logs f1)\<rparr>;
                                                   w5 = log_Debugf
                                                     (''moved input file from '' @ InputFile f2 @
                                                      '' to '' @ path) w4
                                               in case filepath_Rel projectDir path of
                                                    Inl err \<Rightarrow> (errors_WithStack (Some err), f2, w5)
                                                  | Inr pathRelativeToProjectDir \<Rightarrow>
                                                      (None, f2\<lparr>InputFile := pathRelativeToProjectDir\<rparr>,
                                                       w5)))))))))"

definition MoveInputFile ::
    "Finding \<Rightarrow> path \<Rightarrow> path \<Rightarrow> world \<Rightarrow> error option \<times> Finding \<times> world" where
  "MoveInputFile f projectDir seedCorpusDir w =
     (let findingDir = filepath_Join [projectDir, nameFindingsDir, Name f]
      in case os_MkdirAll findingDir w of
           (Some err, w1) \<Rightarrow> (errors_WithStack (Some err), f, w1)
         | (None, w1) \<Rightarrow>
             (let mutex = filepath_Join [findingDir, lockFile]
              in case filemutex_New mutex w1 of
                   (Some err, w2) \<Rightarrow> (errors_WithStack (Some err), f, w2)
                 | (None, w2) \<Rightarrow>
                     (case mutex_Lock mutex w2 of
                        (Some err, w3) \<Rightarrow> (errors_WithStack (Some err), f, w3)
                      | (None, w3) \<Rightarrow>
                          (case moveInputFile f projectDir seedCorpusDir w3 of
                             (err, f', w4) \<Rightarrow>
                               (case mutex_Unlock mutex w4 of
                                  (unlockErr, w5) \<Rightarrow>
                                    if err = None then (errors_WithStack unlockErr, f', w5)
                                    else
                                      (case unlockErr of
                                         Some ue \<Rightarrow> (err, f', log_Error ue w5)
                                       | None \<Rightarrow> (err, f', w5)))))))"

definition LoadFinding ::
    "(string \<Rightarrow> error + Finding) \<Rightarrow> path \<Rightarrow> string \<Rightarrow> world \<Rightarrow> error + Finding" where
  "LoadFinding unmarshal projectDir findingName w =
     (let findingDir = filepath_Join [projectDir, nameFindingsDir, findingName];
          jsonPath = filepath_Join [findingDir, nameJsonFile]
      in case os_ReadFile w jsonPath of
           Inl err \<Rightarrow>
             (if os_IsNotExist err then Inl (WrapNotExistError err) else Inl err)
         | Inr bytes \<Rightarrow>
             (case unmarshal bytes of
                Inl err \<Rightarrow> Inl err
              | Inr f \<Rightarrow> Inr f))"

fun load_entries ::
    "(string \<Rightarrow> error + Finding) \<Rightarrow> path \<Rightarrow> world \<Rightarrow> Finding list \<Rightarrow> string list \<Rightarrow>
     error + Finding list" where
  "load_entries unmarshal projectDir w res [] = Inr res"
| "load_entries unmarshal projectDir w res (e # entries) =
     (case LoadFinding unmarshal projectDir e w of
        Inl err \<Rightarrow> Inl err
      | Inr f \<Rightarrow> load_entries unmarshal projectDir w (res @ [f]) entries)"

text \<open>
  \<open>sort.SliceStable\<close>: a stable sort by the given \<open>less\<close>; a stable sort has one
  result, which insertion from the right computes.
\<close>

fun insert_stable :: "('a \<Rightarrow> 'a \<Rightarrow> bool) \<Rightarrow> 'a \<Rightarrow> 'a list \<Rightarrow> 'a list" where
  "insert_stable lt x [] = [x]"
| "insert_stable lt x (y # ys) =
     (if lt y x then y # insert_stable lt x ys else x # y # ys)"

definition sort_SliceStable :: "('a \<Rightarrow> 'a \<Rightarrow> bool) \<Rightarrow> 'a list \<Rightarrow> 'a list" where
  "sort_SliceStable lt xs = foldr (insert_stable lt) xs []"

definition Time_After :: "Time \<Rightarrow> Time \<Rightarrow> bool" where
  "Time_After t u = (u < t)"

definition ListFindings ::
    "(string \<Rightarrow> error + Finding) \<Rightarrow> path \<Rightarrow> world \<Rightarrow> error + Finding list" where
  "ListFindings unmarshal projectDir w =
     (let findingsDir = filepath_Join [projectDir, nameFindingsDir]
      in case os_ReadDir w findingsDir of
           Inl err \<Rightarrow> (if os_IsNotExist err then Inr [] else Inl err)
         | Inr entries \<Rightarrow>
             (case load_entries unmarshal projectDir w [] entries of
                Inl err \<Rightarrow> Inl err
              | Inr res \<Rightarrow>
                  Inr (sort_SliceStable (\<lambda>a b. Time_After (CreatedAt a) (CreatedAt b)) res)))"

section \<open>Notions used to state the properties\<close>

definition same_env :: "world \<Rightarrow> world \<Rightarrow> bool" where
  "same_env w w' =
     (workdir w' = workdir w \<and> lock_fails w' = lock_fails w \<and>
      unlock_fails w' = unlock_fails w \<and> events w' = events w)"

definition grows :: "(path \<rightharpoonup> node) \<Rightarrow> (path \<rightharpoonup> node) \<Rightarrow> bool" where
  "grows m m' = (\<forall>k. m' k = m k \<or> (m k = None \<and> m' k = Some Dir))"

text \<open>
  The world in which \<open>MoveInputFile\<close> holds the lock of the finding: the world after
  the directory of the finding was made, the lock file opened and the lock taken.
  It is \<open>None\<close> when \<open>MoveInputFile\<close> returns before it has the lock.
\<close>

definition lock_acquired :: "Finding \<Rightarrow> path \<Rightarrow> world \<Rightarrow> world option" where
  "lock_acquired f projectDir w =
     (let findingDir = filepath_Join [projectDir, nameFindingsDir, Name f];
          mutex = filepath_Join [findingDir, lockFile]
      in case os_MkdirAll findingDir w of
           (Some err, w1) \<Rightarrow> None
         | (None, w1) \<Rightarrow>
             (case filemutex_New mutex w1 of
                (Some err, w2) \<Rightarrow> None
              | (None, w2) \<Rightarrow>
                  (case mutex_Lock mutex w2 of
                     (Some err, w3) \<Rightarrow> None
                   | (None, w3) \<Rightarrow> Some w3)))"

definition lock_path :: "Finding \<Rightarrow> path \<Rightarrow> path" where
  "lock_path f projectDir =
     filepath_Join [filepath_Join [projectDir, nameFindingsDir, Name f], lockFile]"

definition json_path :: "path \<Rightarrow> string \<Rightarrow> path" where
  "json_path projectDir name =
     filepath_Join [filepath_Join [projectDir, nameFindingsDir, name], nameJsonFile]"

definition findings_root :: "path \<Rightarrow> path" where
  "findings_root projectDir = filepath_Join [projectDir, nameFindingsDir]"

definition finding_dir :: "Finding \<Rightarrow> path \<Rightarrow> path" where
  "finding_dir f projectDir = filepath_Join [projectDir, nameFindingsDir, Name f]"

definition seed_path :: "Finding \<Rightarrow> path \<Rightarrow> nat \<Rightarrow> path" where
  "seed_path f seedCorpusDir i = filepath_Join [seedCorpusDir, Name f @ ''-'' @ strconv_Itoa i]"

text \<open>In this world the store is ready to treat bytes \<open>b\<close> as a duplicate.\<close>

definition holds :: "world \<Rightarrow> Finding \<Rightarrow> path \<Rightarrow> string \<Rightarrow> bool" where
  "holds v f pd b =
     (os_Stat v (finding_dir f pd) = Inr Dir \<and>
      (\<exists>n. os_Stat v (lock_path f pd) = Inr n) \<and>
      \<not> lock_fails v \<and> \<not> unlock_fails v \<and>
      (\<forall>inp. os_ReadFile v inp = Inr b \<longrightarrow>
         find_slot v (finding_dir f pd) inp 1 = AlreadyStored))"

text \<open>Storing the findings of a list one after the other, with the result of each call.\<close>

fun store_all ::
    "Finding list \<Rightarrow> path \<Rightarrow> path \<Rightarrow> world \<Rightarrow> (error option \<times> Finding) list \<times> world" where
  "store_all [] pd sd w = ([], w)"
| "store_all (g # gs) pd sd w =
     (case MoveInputFile g pd sd w of
        (err, g', w') \<Rightarrow>
          (case store_all gs pd sd w' of
             (rs, w'') \<Rightarrow> ((err, g') # rs, w'')))"

definition seed_key_prefix :: "path \<Rightarrow> Finding \<Rightarrow> path \<Rightarrow> path" where
  "seed_key_prefix wd f sd = abs_prefix wd (clean_prefix (with_slash sd @ Name f))"

section \<open>Concrete scenarios\<close>

definition guard_world :: world where
  "guard_world =
     \<lparr>fs = [(''/'', Dir), (''/P'', Dir)], workdir = ''/P'',
      lock_fails = False, unlock_fails = True, events = []\<rparr>"

definition guard_finding :: Finding where
  "guard_finding = empty_Finding\<lparr>Name := ''crash-abc'', InputFile := ''/tmp/none''\<rparr>"

definition save_world :: world where
  "save_world =
     \<lparr>fs = [(''/'', Dir), (''/P'', Dir)], workdir = ''/P'',
      lock_fails = False, unlock_fails = False, events = []\<rparr>"

definition save_world_after :: world where
  "save_world_after =
     \<lparr>fs = [(''/'', Dir), (''/P'', Dir), (''/P/.cifuzz-findings'', Dir),
            (''/P/.cifuzz-findings/crash-abc'', Dir),
            (''/P/.cifuzz-findings/crash-abc/finding.json'', File ''{first}'')],
      workdir = ''/P'', lock_fails = False, unlock_fails = False, events = []\<rparr>"

definition first_finding :: Finding where
  "first_finding = empty_Finding\<lparr>Name := ''crash-abc'', Details := ''first''\<rparr>"

definition second_finding :: Finding where
  "second_finding = empty_Finding\<lparr>Name := ''crash-abc'', Details := ''second''\<rparr>"

definition store_world :: world where
  "store_world =
     \<lparr>fs = [(''/'', Dir), (''/tmp'', Dir), (''/P'', Dir), (''/tmp/in1'', File ''AAAA''),
            (''/tmp/in2'', File ''AAAA''), (''/tmp/in3'', File ''BBBB'')],
      workdir = ''/P'', lock_fails = False, unlock_fails = False, events = []\<rparr>"

definition store_finding :: Finding where
  "store_finding =
     empty_Finding\<lparr>Name := ''crash-abc'', InputFile := ''/tmp/in1'',
       Logs := [''artifact /tmp/in1 written'', ''done'']\<rparr>"

definition moved_finding :: Finding where
  "moved_finding =
     empty_Finding\<lparr>Name := ''crash-abc'',
       InputFile := ''.cifuzz-findings/crash-abc/crashing-input-1'',
       Logs := [''artifact .cifuzz-findings/crash-abc/crashing-input-1 written'', ''done''],
       seedPath := ''/corpus/crash-abc-1''\<rparr>"

definition moved_world :: world where
  "moved_world =
     \<lparr>fs = [(''/'', Dir), (''/tmp'', Dir), (''/P'', Dir),
            (''/tmp/in2'', File ''AAAA''), (''/tmp/in3'', File ''BBBB''),
            (''/P/.cifuzz-findings'', Dir),
            (''/P/.cifuzz-findings/crash-abc'', Dir),
            (''/P/.cifuzz-findings/crash-abc/crashing-input-1'', File ''AAAA''),
            (''/corpus'', Dir), (''/corpus/crash-abc-1'', File ''AAAA'')],
      workdir = ''/P'', lock_fails = False, unlock_fails = False,
      events = [LogDebug
        ''moved input file from /tmp/in1 to /P/.cifuzz-findings/crash-abc/crashing-input-1'']\<rparr>"

definition stored_world :: world where
  "stored_world =
     \<lparr>fs = [(''/'', Dir), (''/tmp'', Dir), (''/P'', Dir),
            (''/tmp/in2'', File ''AAAA''), (''/tmp/in3'', File ''BBBB''),
            (''/P/.cifuzz-findings'', Dir),
            (''/P/.cifuzz-findings/crash-abc'', Dir),
            (''/P/.cifuzz-findings/crash-abc/.lock'', File []),
            (''/P/.cifuzz-findings/crash-abc/crashing-input-1'', File ''AAAA''),
            (''/corpus'', Dir), (''/corpus/crash-abc-1'', File ''AAAA'')],
      workdir = ''/P'', lock_fails = False, unlock_fails = False,
      events = [Locked ''/P/.cifuzz-findings/crash-abc/.lock'',
        LogDebug
          ''moved input file from /tmp/in1 to /P/.cifuzz-findings/crash-abc/crashing-input-1'',
        UnlockCalled ''/P/.cifuzz-findings/crash-abc/.lock'']\<rparr>"

definition same_bytes_finding :: Finding where
  "same_bytes_finding = empty_Finding\<lparr>Name := ''crash-abc'', InputFile := ''/tmp/in2''\<rparr>"

definition toy_unmarshal :: "string \<Rightarrow> error + Finding" where
  "toy_unmarshal bytes = Inr (empty_Finding\<lparr>Name := bytes, CreatedAt := int (length bytes)\<rparr>)"

definition list_world :: world where
  "list_world =
     \<lparr>fs = [(''/'', Dir), (''/P'', Dir), (''/P/.cifuzz-findings'', Dir),
            (''/P/.cifuzz-findings/a'', Dir),
            (''/P/.cifuzz-findings/a/finding.json'', File ''x''),
            (''/P/.cifuzz-findings/b'', Dir),
            (''/P/.cifuzz-findings/b/finding.json'', File ''xxx'')],
      workdir = ''/P'', lock_fails = False, unlock_fails = False, events = []\<rparr>"

definition untimed_finding :: Finding where
  "untimed_finding = empty_Finding\<lparr>Name := ''crash-abc'', Type := ErrorType_CRASH\<rparr>"

definition other_bytes_finding :: Finding where
  "other_bytes_finding = empty_Finding\<lparr>Name := ''crash-abc'', InputFile := ''/tmp/in3''\<rparr>"

definition other_moved_finding :: Finding where
  "other_moved_finding =
     empty_Finding\<lparr>Name := ''crash-abc'',
       InputFile := ''.cifuzz-findings/crash-abc/crashing-input-2'',
       seedPath := ''/corpus/crash-abc-2''\<rparr>"

definition twice_stored_world :: world where
  "twice_stored_world =
     \<lparr>fs = [(''/'', Dir), (''/tmp'', Dir), (''/P'', Dir),
            (''/tmp/in2'', File ''AAAA''),
            (''/P/.cifuzz-findings'', Dir),
            (''/P/.cifuzz-findings/crash-abc'', Dir),
            (''/P/.cifuzz-findings/crash-abc/.lock'', File []),
            (''/P/.cifuzz-findings/crash-abc/crashing-input-1'', File ''AAAA''),
            (''/corpus'', Dir), (''/corpus/crash-abc-1'', File ''AAAA''),
            (''/P/.cifuzz-findings/crash-abc/crashing-input-2'', File ''BBBB''),
            (''/corpus/crash-abc-2'', File ''BBBB'')],
      workdir = ''/P'', lock_fails = False, unlock_fails = False,
      events = [Locked ''/P/.cifuzz-findings/crash-abc/.lock'',
        LogDebug
          ''moved input file from /tmp/in1 to /P/.cifuzz-findings/crash-abc/crashing-input-1'',
        UnlockCalled ''/P/.cifuzz-findings/crash-abc/.lock'',
        Locked ''/P/.cifuzz-findings/crash-abc/.lock'',
        LogDebug
          ''moved input file from /tmp/in3 to /P/.cifuzz-findings/crash-abc/crashing-input-2'',
        UnlockCalled ''/P/.cifuzz-findings/crash-abc/.lock'']\<rparr>"

text \<open>
  A world where the input of the finding is a file of the seed corpus, under the very
  name the first store gives to its corpus entry.
\<close>

definition corpus_input_world :: world where
  "corpus_input_world =
     \<lparr>fs = [(''/'', Dir), (''/tmp'', Dir), (''/P'', Dir), (''/corpus'', Dir),
            (''/corpus/crash-abc-1'', File ''AAAA''), (''/tmp/in3'', File ''BBBB'')],
      workdir = ''/P'', lock_fails = False, unlock_fails = False, events = []\<rparr>"

definition corpus_input_finding :: Finding where
  "corpus_input_finding =
     empty_Finding\<lparr>Name := ''crash-abc'', InputFile := ''/corpus/crash-abc-1''\<rparr>"

section \<open>What the operations change\<close>

lemma grows_refl [simp]: "grows m m"
  by (simp add: grows_def)

lemma grows_trans: "grows m m' \<Longrightarrow> grows m' m'' \<Longrightarrow> grows m m''"
  unfolding grows_def by metis

lemma grows_mkdir: "m k = None \<Longrightarrow> grows m (m(k \<mapsto> Dir))"
  by (simp add: grows_def)

lemma grows_Some: "grows m m' \<Longrightarrow> m k = Some n \<Longrightarrow> m' k = Some n"
  unfolding grows_def by (metis option.distinct(1))

lemma grows_File: "grows m m' \<Longrightarrow> m' k = Some (File b) \<Longrightarrow> m k = Some (File b)"
  unfolding grows_def by (metis node.distinct(1) option.inject)

lemma grows_None: "grows m m' \<Longrightarrow> m' k = None \<Longrightarrow> m k = None"
  unfolding grows_def by (metis option.distinct(1))

lemma mkdir_walk_grows:
  "mkdir_walk t qs = (r, t') \<Longrightarrow> grows (map_of t) (map_of t')"
proof (induction qs arbitrary: t)
  case Nil
  then show ?case by simp
next
  case (Cons q qs)
  show ?case
  proof (cases "map_of t q")
    case None
    with Cons.prems have "mkdir_walk (AList.update q Dir t) qs = (r, t')" by simp
    from Cons.IH[OF this] have "grows ((map_of t)(q \<mapsto> Dir)) (map_of t')"
      by (simp only: update_conv')
    with grows_mkdir[of "map_of t" q, OF None] show ?thesis by (rule grows_trans)
  next
    case (Some n)
    with Cons show ?thesis by (cases n) auto
  qed
qed

lemma MkdirAll_effect:
  assumes "os_MkdirAll p w = (r, w')"
  shows "grows (map_of (fs w)) (map_of (fs w')) \<and> same_env w w'"
proof (cases "path_check p")
  case (Some e)
  with assms show ?thesis by (auto simp: os_MkdirAll_def same_env_def)
next
  case pc: None
  show ?thesis
  proof (cases "lookup w p")
    case (Some n)
    with pc assms show ?thesis
      by (cases n) (auto simp: os_MkdirAll_def same_env_def)
  next
    case None
    let ?k = "abs_path (workdir w) p"
    obtain r0 t where walk: "mkdir_walk (fs w) (ancestors ?k) = (r0, t)"
      by (cases "mkdir_walk (fs w) (ancestors ?k)")
    have g: "grows (map_of (fs w)) (map_of t)" by (rule mkdir_walk_grows[OF walk])
    have k: "map_of (fs w) ?k = None" using None by (simp add: lookup_def)
    have g': "grows (map_of (fs w)) ((map_of t)(?k \<mapsto> Dir))"
      using g k unfolding grows_def by (metis fun_upd_apply)
    show ?thesis
      using assms pc None walk g g'
      by (cases r0) (auto simp: os_MkdirAll_def same_env_def update_conv')
  qed
qed

lemma MkdirAll_success:
  assumes "os_MkdirAll p w = (None, w')"
  shows "lookup w' p = Some Dir \<and> path_check p = None"
proof (cases "path_check p")
  case (Some e)
  with assms show ?thesis by (auto simp: os_MkdirAll_def)
next
  case pc: None
  show ?thesis
  proof (cases "lookup w p")
    case (Some n)
    with pc assms show ?thesis
      by (cases n) (auto simp: os_MkdirAll_def)
  next
    case None
    let ?k = "abs_path (workdir w) p"
    obtain r0 t where walk: "mkdir_walk (fs w) (ancestors ?k) = (r0, t)"
      by (cases "mkdir_walk (fs w) (ancestors ?k)")
    show ?thesis
      using assms pc None walk
      by (cases r0) (auto simp: os_MkdirAll_def lookup_def update_conv')
  qed
qed

lemma MkdirAll_Dir: "path_check p = None \<Longrightarrow> lookup w p = Some Dir \<Longrightarrow> os_MkdirAll p w = (None, w)"
  by (simp add: os_MkdirAll_def)

lemma WriteFile_success:
  assumes "os_WriteFile p data w = (None, w')"
  shows "map_of (fs w') = (map_of (fs w))(abs_path (workdir w) p \<mapsto> File data) \<and>
         same_env w w' \<and> path_check p = None \<and> lookup w p \<noteq> Some Dir"
  using assms
  by (auto simp: os_WriteFile_def same_env_def update_conv'
      split: option.splits node.splits)

lemma WriteFile_effect:
  assumes "os_WriteFile p data w = (r, w')"
  shows "same_env w w'"
  using assms
  by (auto simp: os_WriteFile_def same_env_def split: option.splits node.splits)

lemma New_effect:
  assumes "filemutex_New p w = (r, w')"
  shows "same_env w w' \<and>
         (map_of (fs w') = map_of (fs w) \<or>
          (r = None \<and> lookup w p = None \<and>
           map_of (fs w') = (map_of (fs w))(abs_path (workdir w) p \<mapsto> File [])))"
  using assms
  by (auto simp: filemutex_New_def same_env_def update_conv' split: option.splits)

lemma New_success:
  assumes "filemutex_New p w = (None, w')"
  shows "lookup w' p \<noteq> None \<and> path_check p = None"
  using assms
  by (auto simp: filemutex_New_def lookup_def update_conv' split: option.splits)

lemma New_exists:
  "path_check p = None \<Longrightarrow> lookup w p \<noteq> None \<Longrightarrow> filemutex_New p w = (None, w)"
  by (auto simp: filemutex_New_def)

lemma Remove_effect:
  assumes "os_Remove p w = (r, w')"
  shows "same_env w w'"
  using assms
  by (auto simp: os_Remove_def same_env_def Let_def split: option.splits node.splits if_splits)

lemma Remove_success:
  assumes "os_Remove p w = (None, w')"
  shows "map_of (fs w') = (map_of (fs w))(abs_path (workdir w) p := None) \<and>
         lookup w p \<noteq> None \<and> path_check p = None"
  using assms
  by (auto simp: os_Remove_def delete_conv' Let_def split: option.splits node.splits if_splits)

lemma fcopy_effect:
  assumes "fcopy b dest w = (r, w')"
  shows "same_env w w'"
proof -
  obtain r1 w1 where m: "os_MkdirAll (filepath_Dir dest) w = (r1, w1)"
    by (cases "os_MkdirAll (filepath_Dir dest) w")
  from MkdirAll_effect[OF m] have e1: "same_env w w1" by simp
  show ?thesis
  proof (cases r1)
    case None
    with assms m have "os_WriteFile dest b w1 = (r, w')" by (simp add: fcopy_def)
    from WriteFile_effect[OF this] e1 show ?thesis by (simp add: same_env_def)
  next
    case (Some e)
    with assms m e1 show ?thesis by (simp add: fcopy_def)
  qed
qed

lemma fcopy_success:
  assumes "fcopy b dest w = (None, w')"
  shows "\<exists>t. grows (map_of (fs w)) t \<and> t (abs_path (workdir w) dest) \<noteq> Some Dir \<and>
             map_of (fs w') = t(abs_path (workdir w) dest \<mapsto> File b)"
proof -
  obtain r1 w1 where m: "os_MkdirAll (filepath_Dir dest) w = (r1, w1)"
    by (cases "os_MkdirAll (filepath_Dir dest) w")
  from MkdirAll_effect[OF m] have e1: "same_env w w1" and g: "grows (map_of (fs w)) (map_of (fs w1))"
    by simp_all
  from assms m have r1: "r1 = None" and wr: "os_WriteFile dest b w1 = (None, w')"
    by (auto simp: fcopy_def split: option.splits)
  from WriteFile_success[OF wr] e1 g show ?thesis
    by (auto simp: same_env_def lookup_def intro!: exI[of _ "map_of (fs w1)"])
qed


lemma same_env_trans: "same_env a b \<Longrightarrow> same_env b c \<Longrightarrow> same_env a c"
  by (simp add: same_env_def)

lemma same_env_refl [simp]: "same_env w w"
  by (simp add: same_env_def)

lemma copy_nodes_effect:
  "copy_nodes sk dk ns w = (r, w') \<Longrightarrow> same_env w w'"
proof (induction ns arbitrary: w)
  case Nil
  then show ?case by simp
next
  case (Cons a ns)
  obtain q n where a: "a = (q, n)" by (cases a)
  let ?step = "case n of Dir \<Rightarrow> os_MkdirAll (dk @ drop (length sk) q) w
                 | File b \<Rightarrow> fcopy b (dk @ drop (length sk) q) w"
  obtain r1 w1 where st: "?step = (r1, w1)" by (cases ?step)
  have e1: "same_env w w1"
    using st MkdirAll_effect fcopy_effect by (cases n) auto
  show ?case
  proof (cases r1)
    case None
    with Cons.prems a st have "copy_nodes sk dk ns w1 = (r, w')" by simp
    from Cons.IH[OF this] e1 show ?thesis by (rule same_env_trans[rotated])
  next
    case (Some e)
    with Cons.prems a st e1 show ?thesis by simp
  qed
qed

lemma dcopy_effect:
  assumes "dcopy src dest w = (r, w')"
  shows "same_env w w'"
proof -
  obtain r1 w1 where m: "os_MkdirAll dest w = (r1, w1)" by (cases "os_MkdirAll dest w")
  from MkdirAll_effect[OF m] have e1: "same_env w w1" by simp
  show ?thesis
  proof (cases r1)
    case None
    with assms m obtain ns sk dk where "copy_nodes sk dk ns w1 = (r, w')"
      by (auto simp: dcopy_def Let_def)
    from copy_nodes_effect[OF this] e1 show ?thesis by (rule same_env_trans[rotated])
  next
    case (Some e)
    with assms m e1 show ?thesis by (simp add: dcopy_def)
  qed
qed

lemma copy_Copy_effect:
  assumes "copy_Copy src dest w = (r, w')"
  shows "same_env w w'"
  using assms fcopy_effect dcopy_effect
  by (auto simp: copy_Copy_def split: sum.splits node.splits)

text \<open>The effects of \<open>moveInputFile\<close> outside the file system: at most one debug line.\<close>

lemma moveInputFile_env:
  assumes "moveInputFile f pd sd w = (r, f', w')"
  shows "workdir w' = workdir w \<and> lock_fails w' = lock_fails w \<and>
         unlock_fails w' = unlock_fails w \<and>
         (events w' = events w \<or> (\<exists>msg. events w' = events w @ [LogDebug msg]))"
proof -
  let ?d = "filepath_Join [pd, nameFindingsDir, Name f]"
  show ?thesis
  proof (cases "find_slot w ?d (InputFile f) 1")
    case (Failed e)
    with assms show ?thesis by (simp add: moveInputFile_def)
  next
    case AlreadyStored
    with assms show ?thesis by (simp add: moveInputFile_def)
  next
    case (FreeSlot i path)
    let ?sp = "filepath_Join [sd, Name f @ ''-'' @ strconv_Itoa i]"
    obtain r1 w1 where c1: "copy_Copy (InputFile f) path w = (r1, w1)"
      by (cases "copy_Copy (InputFile f) path w")
    obtain r2 w2 where c2: "os_MkdirAll sd w1 = (r2, w2)"
      by (cases "os_MkdirAll sd w1")
    obtain r3 w3 where c3: "copy_Copy (InputFile f) ?sp w2 = (r3, w3)"
      by (cases "copy_Copy (InputFile f) ?sp w2")
    obtain r4 w4 where c4: "os_Remove (InputFile f) w3 = (r4, w4)"
      by (cases "os_Remove (InputFile f) w3")
    have e: "same_env w w1" "same_env w1 w2" "same_env w2 w3" "same_env w3 w4"
      using copy_Copy_effect[OF c1] MkdirAll_effect[OF c2] copy_Copy_effect[OF c3]
        Remove_effect[OF c4] by simp_all
    show ?thesis
      using assms FreeSlot c1 c2 c3 c4 e
      by (auto simp: moveInputFile_def Let_def same_env_def log_Debugf_def errors_WithStack_def
          split: option.splits sum.splits)
  qed
qed


lemma lock_acquired_env:
  assumes "lock_acquired f pd w = Some w3"
  shows "workdir w3 = workdir w \<and> lock_fails w3 = lock_fails w \<and> \<not> lock_fails w \<and>
         unlock_fails w3 = unlock_fails w \<and>
         events w3 = events w @ [Locked (lock_path f pd)]"
proof -
  let ?d = "filepath_Join [pd, nameFindingsDir, Name f]"
  obtain r1 w1 where c1: "os_MkdirAll ?d w = (r1, w1)" by (cases "os_MkdirAll ?d w")
  obtain r2 w2 where c2: "filemutex_New (lock_path f pd) w1 = (r2, w2)"
    by (cases "filemutex_New (lock_path f pd) w1")
  have e: "same_env w w1" "same_env w1 w2"
    using MkdirAll_effect[OF c1] New_effect[OF c2] by simp_all
  show ?thesis
    using assms c1 c2 e
    by (auto simp: lock_acquired_def lock_path_def Let_def mutex_Lock_def same_env_def
        split: option.splits if_splits)
qed

lemma MoveInputFile_acquired:
  assumes "lock_acquired f pd w = Some w3"
  shows "MoveInputFile f pd sd w =
     (case moveInputFile f pd sd w3 of
        (err, f', w4) \<Rightarrow>
          (case mutex_Unlock (lock_path f pd) w4 of
             (unlockErr, w5) \<Rightarrow>
               if err = None then (errors_WithStack unlockErr, f', w5)
               else
                 (case unlockErr of
                    Some ue \<Rightarrow> (err, f', log_Error ue w5)
                  | None \<Rightarrow> (err, f', w5))))"
  using assms
  by (auto simp: lock_acquired_def MoveInputFile_def lock_path_def Let_def
      split: option.splits prod.splits)

lemma MoveInputFile_not_acquired:
  assumes "lock_acquired f pd w = None"
  shows "fst (MoveInputFile f pd sd w) \<noteq> None \<and>
         fst (snd (MoveInputFile f pd sd w)) = f \<and>
         events (snd (snd (MoveInputFile f pd sd w))) = events w"
proof -
  let ?d = "filepath_Join [pd, nameFindingsDir, Name f]"
  obtain r1 w1 where c1: "os_MkdirAll ?d w = (r1, w1)" by (cases "os_MkdirAll ?d w")
  obtain r2 w2 where c2: "filemutex_New (lock_path f pd) w1 = (r2, w2)"
    by (cases "filemutex_New (lock_path f pd) w1")
  have e: "same_env w w1" "same_env w1 w2"
    using MkdirAll_effect[OF c1] New_effect[OF c2] by simp_all
  show ?thesis
    using assms c1 c2 e
    by (auto simp: lock_acquired_def MoveInputFile_def lock_path_def Let_def mutex_Lock_def
        same_env_def errors_WithStack_def split: option.splits if_splits)
qed

section \<open>Files that are there and files that are not\<close>

lemma Exists_False_lookup:
  "fileutil_Exists w p = Inr False \<Longrightarrow> path_check p = None \<Longrightarrow> lookup w p = None"
  by (auto simp: fileutil_Exists_def os_Stat_def split: sum.splits option.splits if_splits)

lemma Exists_lookup_Some:
  "path_check p = None \<Longrightarrow> lookup w p = Some n \<Longrightarrow> fileutil_Exists w p = Inr True"
  by (simp add: fileutil_Exists_def os_Stat_def)

lemma ReadFile_File:
  "path_check p = None \<Longrightarrow> lookup w p = Some (File b) \<Longrightarrow> os_ReadFile w p = Inr b"
  by (simp add: os_ReadFile_def os_Stat_def)

section \<open>The stable sort\<close>

lemma insert_stable_set [simp]: "set (insert_stable lt x ys) = insert x (set ys)"
  by (induction ys) auto

lemma insert_stable_mset [simp]: "mset (insert_stable lt x ys) = add_mset x (mset ys)"
  by (induction ys) auto

lemma insert_stable_sorted:
  fixes key :: "'a \<Rightarrow> int"
  assumes "sorted_wrt (\<lambda>a b. key b \<le> key a) ys"
  shows "sorted_wrt (\<lambda>a b. key b \<le> key a) (insert_stable (\<lambda>a b. key b < key a) x ys)"
  using assms by (induction ys) auto

lemma SliceStable_sorted:
  fixes key :: "'a \<Rightarrow> int"
  shows "sorted_wrt (\<lambda>a b. key b \<le> key a) (sort_SliceStable (\<lambda>a b. key b < key a) xs)"
  unfolding sort_SliceStable_def by (induction xs) (auto intro: insert_stable_sorted)

lemma SliceStable_mset [simp]: "mset (sort_SliceStable lt xs) = mset xs"
  unfolding sort_SliceStable_def by (induction xs) auto

lemma insert_stable_filter:
  fixes key :: "'a \<Rightarrow> int"
  assumes "sorted_wrt (\<lambda>a b. key b \<le> key a) ys"
  shows "filter (\<lambda>y. key y = t) (insert_stable (\<lambda>a b. key b < key a) x ys) =
         (if key x = t then x # filter (\<lambda>y. key y = t) ys else filter (\<lambda>y. key y = t) ys)"
  using assms
proof (induction ys)
  case Nil
  then show ?case by simp
next
  case (Cons y ys)
  then show ?case
    by (auto simp: filter_empty_conv)
qed

lemma SliceStable_stable:
  fixes key :: "'a \<Rightarrow> int"
  shows "filter (\<lambda>y. key y = t) (sort_SliceStable (\<lambda>a b. key b < key a) xs) =
         filter (\<lambda>y. key y = t) xs"
proof (induction xs)
  case Nil
  then show ?case by (simp add: sort_SliceStable_def)
next
  case (Cons x xs)
  have s: "sorted_wrt (\<lambda>a b. key b \<le> key a) (foldr (insert_stable (\<lambda>a b. key b < key a)) xs [])"
    using SliceStable_sorted[of key xs] by (simp add: sort_SliceStable_def)
  from Cons show ?case
    by (simp add: sort_SliceStable_def insert_stable_filter[OF s])
qed

lemma load_entries_acc:
  "load_entries u pd w res es = Inr out \<Longrightarrow>
   \<exists>loaded. out = res @ loaded \<and> map Inr loaded = map (\<lambda>e. LoadFinding u pd e w) es"
proof (induction es arbitrary: res)
  case Nil
  then show ?case by simp
next
  case (Cons e es)
  then obtain f where f: "LoadFinding u pd e w = Inr f"
    and rest: "load_entries u pd w (res @ [f]) es = Inr out"
    by (auto split: sum.splits)
  from Cons.IH[OF rest] f show ?case by auto
qed

section \<open>Replacing in strings\<close>

lemma replace_from_Cons:
  "replace_from old new (c # s) =
     (if old \<noteq> [] \<and> take (length old) (c # s) = old
      then new @ replace_from old new (drop (length old) (c # s))
      else c # replace_from old new s)"
  by (subst replace_from.simps) simp

lemma replace_from_Nil [simp]: "replace_from old new [] = []"
  by (subst replace_from.simps) simp

lemma Contains_iff:
  "strings_Contains s sub \<longleftrightarrow> (\<exists>i\<le>length s. take (length sub) (drop i s) = sub)"
proof
  assume "strings_Contains s sub"
  then obtain i where "i \<in> set [0..<Suc (length s)]" "take (length sub) (drop i s) = sub"
    unfolding strings_Contains_def list_ex_iff by blast
  then have "i \<le> length s \<and> take (length sub) (drop i s) = sub"
    unfolding set_upt by auto
  then show "\<exists>i\<le>length s. take (length sub) (drop i s) = sub"
    by blast
next
  assume "\<exists>i\<le>length s. take (length sub) (drop i s) = sub"
  then obtain i where "i \<le> length s" "take (length sub) (drop i s) = sub" by blast
  then have "i \<in> set [0..<Suc (length s)]" unfolding set_upt by auto
  with \<open>take (length sub) (drop i s) = sub\<close> show "strings_Contains s sub"
    unfolding strings_Contains_def list_ex_iff by blast
qed

lemma Contains_here:
  "take (length old) s = old \<Longrightarrow> strings_Contains s old"
  unfolding Contains_iff by (intro exI[of _ 0]) simp

lemma Contains_Cons:
  "strings_Contains s old \<Longrightarrow> strings_Contains (c # s) old"
proof -
  assume "strings_Contains s old"
  then obtain i where "i \<le> length s" "take (length old) (drop i s) = old"
    unfolding Contains_iff by blast
  then have "Suc i \<le> length (c # s) \<and> take (length old) (drop (Suc i) (c # s)) = old"
    by simp
  then show ?thesis
    unfolding Contains_iff by blast
qed

lemma replace_from_absent:
  "\<not> strings_Contains s old \<Longrightarrow> replace_from old new s = s"
proof (induction s)
  case Nil
  then show ?case by simp
next
  case (Cons c s)
  then show ?case
    using Contains_here[of old "c # s"] Contains_Cons[of s old c]
    by (auto simp: replace_from_Cons)
qed

lemma ReplaceAll_absent:
  "\<not> strings_Contains s old \<Longrightarrow> strings_ReplaceAll s old new = s"
proof (cases "old = []")
  case True
  moreover assume "\<not> strings_Contains s old"
  ultimately show ?thesis using Contains_here[of "[]" s] by simp
next
  case False
  moreover assume "\<not> strings_Contains s old"
  ultimately show ?thesis by (simp add: strings_ReplaceAll_def replace_from_absent)
qed

lemma replace_from_first:
  assumes "old \<noteq> []"
  shows "\<not> strings_Contains (pre @ butlast old) old \<Longrightarrow>
         replace_from old new (pre @ old @ post) = pre @ new @ replace_from old new post"
proof (induction pre)
  case Nil
  have "replace_from old new (old @ post) = new @ replace_from old new post"
    using assms by (subst replace_from.simps) simp
  then show ?case by simp
next
  case (Cons c pre)
  have len: "length old \<le> length (c # pre @ butlast old)" by simp
  have "old = butlast old @ [last old]"
    using assms by simp
  then have E: "c # pre @ old @ post = (c # pre @ butlast old) @ [last old] @ post"
    by (metis append.assoc append_Cons)
  have "take (length old) (c # pre @ old @ post) = take (length old) ((c # pre @ butlast old) @ [last old] @ post)"
    using arg_cong[OF E, of "take (length old)"] .
  also have "\<dots> = take (length old) (c # pre @ butlast old)"
    using len by (simp del: append_Cons)
  finally have t: "take (length old) (c # pre @ old @ post) = take (length old) (c # pre @ butlast old)" .
  have no0: "take (length old) (c # pre @ old @ post) \<noteq> old"
    using Cons.prems Contains_here[of old "c # pre @ butlast old"] t by auto
  have "\<not> strings_Contains (pre @ butlast old) old"
    using Cons.prems Contains_Cons[of "pre @ butlast old" old c] by auto
  from Cons.IH[OF this] no0 show ?case
    by (simp add: replace_from_Cons)
qed

lemma ReplaceAll_first:
  "old \<noteq> [] \<Longrightarrow> \<not> strings_Contains (pre @ butlast old) old \<Longrightarrow>
   strings_ReplaceAll (pre @ old @ post) old new = pre @ new @ strings_ReplaceAll post old new"
  by (simp add: strings_ReplaceAll_def replace_from_first)

section \<open>The steps of a store that takes a free slot\<close>

lemma Getwd_Inr: "os_Getwd w = Inr c \<Longrightarrow> c = workdir w"
  by (auto simp: os_Getwd_def split: if_splits)

lemma moveInputFile_stored:
  assumes slot: "find_slot w (finding_dir f pd) (InputFile f) 1 = FreeSlot i path"
      and ok: "moveInputFile f pd sd w = (None, f', w')"
  obtains w1 w2 w3 w4 relPath rel where
    "copy_Copy (InputFile f) path w = (None, w1)"
    "os_MkdirAll sd w1 = (None, w2)"
    "copy_Copy (InputFile f) (seed_path f sd i) w2 = (None, w3)"
    "os_Remove (InputFile f) w3 = (None, w4)"
    "os_Getwd w4 = Inr (workdir w)"
    "filepath_Rel (workdir w) path = Inr relPath"
    "filepath_Rel pd path = Inr rel"
    "f' = f\<lparr>seedPath := seed_path f sd i,
             Logs := map (\<lambda>line. strings_ReplaceAll line (InputFile f) relPath) (Logs f),
             InputFile := rel\<rparr>"
    "w' = log_Debugf (''moved input file from '' @ InputFile f @ '' to '' @ path) w4"
proof -
  let ?sp = "seed_path f sd i"
  obtain r1 w1 where c1: "copy_Copy (InputFile f) path w = (r1, w1)"
    by (cases "copy_Copy (InputFile f) path w")
  with slot ok have r1: "r1 = None"
    by (auto simp: moveInputFile_def finding_dir_def errors_WithStack_def split: option.splits)
  obtain r2 w2 where c2: "os_MkdirAll sd w1 = (r2, w2)"
    by (cases "os_MkdirAll sd w1")
  with slot ok c1 r1 have r2: "r2 = None"
    by (auto simp: moveInputFile_def finding_dir_def errors_WithStack_def split: option.splits)
  obtain r3 w3 where c3: "copy_Copy (InputFile f) ?sp w2 = (r3, w3)"
    by (cases "copy_Copy (InputFile f) ?sp w2")
  with slot ok c1 r1 c2 r2 have r3: "r3 = None"
    by (auto simp: moveInputFile_def finding_dir_def seed_path_def Let_def errors_WithStack_def
        split: option.splits)
  obtain r4 w4 where c4: "os_Remove (InputFile f) w3 = (r4, w4)"
    by (cases "os_Remove (InputFile f) w3")
  with slot ok c1 r1 c2 r2 c3 r3 have r4: "r4 = None"
    by (auto simp: moveInputFile_def finding_dir_def seed_path_def Let_def errors_WithStack_def
        split: option.splits)
  have e: "same_env w w1" "same_env w1 w2" "same_env w2 w3" "same_env w3 w4"
    using copy_Copy_effect[OF c1] MkdirAll_effect[OF c2] copy_Copy_effect[OF c3]
      Remove_effect[OF c4] by simp_all
  then have wd: "workdir w4 = workdir w" by (simp add: same_env_def)
  note steps = slot ok c1 r1 c2 r2 c3 r3 c4 r4
  note defs = moveInputFile_def finding_dir_def seed_path_def Let_def errors_WithStack_def
  from steps obtain c where g: "os_Getwd w4 = Inr c"
    by (cases "os_Getwd w4") (auto simp: defs)
  with Getwd_Inr[OF g] wd have g': "os_Getwd w4 = Inr (workdir w)" by simp
  from steps g' obtain relPath where rp: "filepath_Rel (workdir w) path = Inr relPath"
    by (cases "filepath_Rel (workdir w) path") (auto simp: defs)
  from steps g' rp obtain rel where rl: "filepath_Rel pd path = Inr rel"
    by (cases "filepath_Rel pd path") (auto simp: defs)
  from steps g' rp rl have
    "f' = f\<lparr>seedPath := ?sp,
             Logs := map (\<lambda>line. strings_ReplaceAll line (InputFile f) relPath) (Logs f),
             InputFile := rel\<rparr>"
    "w' = log_Debugf (''moved input file from '' @ InputFile f @ '' to '' @ path) w4"
    by (auto simp: defs)
  with that c1 r1 c2 r2 c3 r3 c4 r4 g' rp rl show ?thesis by blast
qed

section \<open>The search for a slot\<close>

lemma ReadFile_Exists:
  "os_ReadFile w p = Inr b \<Longrightarrow> fileutil_Exists w p = Inr True"
  by (auto simp: os_ReadFile_def fileutil_Exists_def split: sum.splits node.splits)

lemma find_slot_unfold:
  "find_slot w d inp k =
     (case fileutil_Exists w (slot_path d k) of
        Inl err \<Rightarrow> Failed err
      | Inr ex \<Rightarrow>
          if \<not> ex then FreeSlot k (slot_path d k)
          else
            (case os_ReadFile w (slot_path d k) of
               Inl err \<Rightarrow> Failed err
             | Inr c \<Rightarrow>
                 (case os_ReadFile w inp of
                    Inl err \<Rightarrow> Failed err
                  | Inr b \<Rightarrow> if c = b then AlreadyStored else find_slot w d inp (Suc k))))"
  by (subst find_slot.simps)
     (simp add: Let_def slot_path_def sliceutil_Equal_def split: sum.splits bool.splits)

lemma find_slot_induct [consumes 0, case_names step]:
  assumes step: "\<And>k. (\<And>c b. fileutil_Exists w (slot_path d k) = Inr True \<Longrightarrow>
                        os_ReadFile w (slot_path d k) = Inr c \<Longrightarrow>
                        os_ReadFile w inp = Inr b \<Longrightarrow> c \<noteq> b \<Longrightarrow> P (Suc k)) \<Longrightarrow> P k"
  shows "P k"
proof -
  have "w' = w \<longrightarrow> d' = d \<longrightarrow> inp' = inp \<longrightarrow> P k" for w' d' inp'
  proof (induction w' d' inp' k rule: find_slot.induct)
    case (1 w' d' inp' k)
    show ?case
    proof (intro impI)
      assume eqs: "w' = w" "d' = d" "inp' = inp"
      show "P k"
      proof (rule step)
        fix c b
        assume "fileutil_Exists w (slot_path d k) = Inr True"
          and "os_ReadFile w (slot_path d k) = Inr c"
          and "os_ReadFile w inp = Inr b" and "c \<noteq> b"
        then show "P (Suc k)"
          using "1.IH"[of "slot_path d k" True c b] eqs
          by (simp add: slot_path_def sliceutil_Equal_def)
      qed
    qed
  qed
  then show ?thesis by simp
qed

lemma find_slot_FreeSlot:
  "find_slot w d inp k = FreeSlot i path \<Longrightarrow>
   k \<le> i \<and> path = slot_path d i \<and> fileutil_Exists w path = Inr False \<and>
   (\<forall>j. k \<le> j \<and> j < i \<longrightarrow>
      (\<exists>c b. os_ReadFile w (slot_path d j) = Inr c \<and> os_ReadFile w inp = Inr b \<and> c \<noteq> b))"
proof (induction k rule: find_slot_induct[of w d inp])
  case (step k)
  show ?case
  proof (cases "fileutil_Exists w (slot_path d k) = Inr False")
    case True
    with step.prems show ?thesis
      by (subst (asm) find_slot_unfold) auto
  next
    case False
    with step.prems obtain c b where
      ex: "fileutil_Exists w (slot_path d k) = Inr True"
      and c: "os_ReadFile w (slot_path d k) = Inr c" and b: "os_ReadFile w inp = Inr b"
      and ne: "c \<noteq> b" and rec: "find_slot w d inp (Suc k) = FreeSlot i path"
      by (subst (asm) find_slot_unfold) (auto split: sum.splits if_splits)
    from step.IH[OF ex c b ne rec]
    have IH: "Suc k \<le> i" "path = slot_path d i" "fileutil_Exists w path = Inr False"
      "\<forall>j. Suc k \<le> j \<and> j < i \<longrightarrow>
        (\<exists>c b. os_ReadFile w (slot_path d j) = Inr c \<and> os_ReadFile w inp = Inr b \<and> c \<noteq> b)"
      by blast+
    have "\<exists>c b. os_ReadFile w (slot_path d j) = Inr c \<and> os_ReadFile w inp = Inr b \<and> c \<noteq> b"
      if "k \<le> j" "j < i" for j
    proof (cases "j = k")
      case True
      with c b ne show ?thesis by auto
    next
      case False
      with that IH(4) show ?thesis by (simp add: Suc_le_eq)
    qed
    with IH show ?thesis by auto
  qed
qed

lemma find_slot_AlreadyStored:
  "find_slot w d inp k = AlreadyStored \<Longrightarrow>
   \<exists>j\<ge>k. \<exists>b. os_ReadFile w (slot_path d j) = Inr b \<and> os_ReadFile w inp = Inr b"
proof (induction k rule: find_slot_induct[of w d inp])
  case (step k)
  from step.prems obtain c b where ex: "fileutil_Exists w (slot_path d k) = Inr True"
    and c: "os_ReadFile w (slot_path d k) = Inr c" and b: "os_ReadFile w inp = Inr b"
    and alt: "c = b \<or> find_slot w d inp (Suc k) = AlreadyStored"
    by (subst (asm) find_slot_unfold) (auto split: sum.splits if_splits)
  show ?case
  proof (cases "c = b")
    case True
    with c b show ?thesis by (intro exI[of _ k]) auto
  next
    case False
    with alt have "find_slot w d inp (Suc k) = AlreadyStored" by simp
    from step.IH[OF ex c b False this] obtain j where "j \<ge> Suc k"
      "\<exists>b. os_ReadFile w (slot_path d j) = Inr b \<and> os_ReadFile w inp = Inr b" by blast
    then show ?thesis by (intro exI[of _ j]) auto
  qed
qed

lemma find_slot_hit:
  assumes inp: "os_ReadFile w inp = Inr b"
      and hit: "os_ReadFile w (slot_path d i) = Inr b"
      and before: "\<forall>j. k \<le> j \<and> j < i \<longrightarrow> (\<exists>c. os_ReadFile w (slot_path d j) = Inr c)"
      and le: "k \<le> i"
  shows "find_slot w d inp k = AlreadyStored"
  using before le
proof (induction "i - k" arbitrary: k)
  case 0
  then have "k = i" by simp
  with hit inp ReadFile_Exists[OF hit] show ?case
    by (subst find_slot_unfold) simp
next
  case (Suc n)
  then have lt: "k < i" by simp
  with Suc.prems obtain c where c: "os_ReadFile w (slot_path d k) = Inr c" by auto
  have rec: "find_slot w d inp (Suc k) = AlreadyStored"
    using Suc.hyps(2) Suc.prems lt by (intro Suc.hyps(1)) auto
  from c inp ReadFile_Exists[OF c] rec show ?case
    by (subst find_slot_unfold) simp
qed

lemma find_slot_cong:
  assumes "\<And>p. lookup w' p = lookup w p"
  shows "find_slot w' d inp k = find_slot w d inp k"
proof -
  have st: "os_Stat w' p = os_Stat w p" for p
    by (auto simp: os_Stat_def assms split: option.splits)
  have ex: "fileutil_Exists w' p = fileutil_Exists w p" for p
    by (simp add: fileutil_Exists_def st)
  have rd: "os_ReadFile w' p = os_ReadFile w p" for p
    by (simp add: os_ReadFile_def st)
  show ?thesis
  proof (induction k rule: find_slot_induct[of w d inp])
    case (step k)
    show ?case
      by (subst find_slot_unfold, subst (2) find_slot_unfold)
         (auto simp: ex rd step split: sum.splits)
  qed
qed

lemma copy_Copy_src:
  "copy_Copy src dest w = (None, w') \<Longrightarrow> path_check src = None"
  by (auto simp: copy_Copy_def os_Stat_def split: sum.splits option.splits)

section \<open>The keys of an encoded finding\<close>

lemma Finding_json_always:
  assumes "Finding_json f = Inr j"
  shows "\<exists>kvs. j = JObject kvs \<and> (''InputFile'', JString (InputFile f)) \<in> set kvs \<and>
         (''created_at'', JTime (CreatedAt f)) \<in> set kvs"
proof -
  from assms obtain more where
    j: "j = JObject
         (omitempty (Name f = []) ''name'' (JString (Name f)) @
          omitempty (Type f = []) ''type'' (JString (Type f)) @
          omitempty (InputData f = []) ''input_data'' (JBase64 (InputData f)) @
          omitempty (Logs f = []) ''logs'' (JArray (map JString (Logs f))) @
          omitempty (Details f = []) ''details'' (JString (Details f)) @
          omitempty (HumanReadableInput f = []) ''human_readable_input''
            (JString (HumanReadableInput f)) @
          more @
          omitempty (Tag f = 0) ''tag'' (JUint (Tag f)) @
          omitempty (ShortDescription f = []) ''short_description''
            (JString (ShortDescription f)) @
          [(''InputFile'', JString (InputFile f))] @
          [(''created_at'', JTime (CreatedAt f))] @
          omitempty (StackTrace f = []) ''stack_trace''
            (JArray (map StackFrame_json (StackTrace f))))"
    and more: "more = [] \<or> (\<exists>d. more = [(''more_details'', d)])"
    unfolding Finding_json_def Time_MarshalJSON_def
    by (auto split: sum.splits option.splits if_splits)
  show ?thesis
    unfolding j by simp
qed

lemma omitempty_other_key: "k \<noteq> k' \<Longrightarrow> k \<notin> fst ` set (omitempty e k' v)"
  by (simp add: omitempty_def)

lemma omitempty_empty: "e \<Longrightarrow> k \<notin> fst ` set (omitempty e k' v)"
  by (simp add: omitempty_def)

lemma Finding_json_shape:
  assumes "Finding_json f = Inr j"
  obtains more where
    "j = JObject
         (omitempty (Name f = []) ''name'' (JString (Name f)) @
          omitempty (Type f = []) ''type'' (JString (Type f)) @
          omitempty (InputData f = []) ''input_data'' (JBase64 (InputData f)) @
          omitempty (Logs f = []) ''logs'' (JArray (map JString (Logs f))) @
          omitempty (Details f = []) ''details'' (JString (Details f)) @
          omitempty (HumanReadableInput f = []) ''human_readable_input''
            (JString (HumanReadableInput f)) @
          more @
          omitempty (Tag f = 0) ''tag'' (JUint (Tag f)) @
          omitempty (ShortDescription f = []) ''short_description''
            (JString (ShortDescription f)) @
          [(''InputFile'', JString (InputFile f))] @
          [(''created_at'', JTime (CreatedAt f))] @
          omitempty (StackTrace f = []) ''stack_trace''
            (JArray (map StackFrame_json (StackTrace f))))"
    "MoreDetails f = None \<longrightarrow> more = []"
    "\<forall>k \<in> fst ` set more. k = ''more_details''"
  using assms
  unfolding Finding_json_def Time_MarshalJSON_def
  by (auto split: sum.splits option.splits if_splits)

text \<open>The fields whose tag works are left out when they are empty.\<close>

lemma Finding_json_omits:
  assumes "Finding_json f = Inr (JObject kvs)"
  shows "(Name f = [] \<longrightarrow> ''name'' \<notin> fst ` set kvs) \<and>
         (Type f = [] \<longrightarrow> ''type'' \<notin> fst ` set kvs) \<and>
         (InputData f = [] \<longrightarrow> ''input_data'' \<notin> fst ` set kvs) \<and>
         (Logs f = [] \<longrightarrow> ''logs'' \<notin> fst ` set kvs) \<and>
         (Details f = [] \<longrightarrow> ''details'' \<notin> fst ` set kvs) \<and>
         (HumanReadableInput f = [] \<longrightarrow> ''human_readable_input'' \<notin> fst ` set kvs) \<and>
         (MoreDetails f = None \<longrightarrow> ''more_details'' \<notin> fst ` set kvs) \<and>
         (Tag f = 0 \<longrightarrow> ''tag'' \<notin> fst ` set kvs) \<and>
         (ShortDescription f = [] \<longrightarrow> ''short_description'' \<notin> fst ` set kvs) \<and>
         (StackTrace f = [] \<longrightarrow> ''stack_trace'' \<notin> fst ` set kvs)"
proof -
  from assms obtain more where
    kvs: "JObject kvs = JObject
         (omitempty (Name f = []) ''name'' (JString (Name f)) @
          omitempty (Type f = []) ''type'' (JString (Type f)) @
          omitempty (InputData f = []) ''input_data'' (JBase64 (InputData f)) @
          omitempty (Logs f = []) ''logs'' (JArray (map JString (Logs f))) @
          omitempty (Details f = []) ''details'' (JString (Details f)) @
          omitempty (HumanReadableInput f = []) ''human_readable_input''
            (JString (HumanReadableInput f)) @
          more @
          omitempty (Tag f = 0) ''tag'' (JUint (Tag f)) @
          omitempty (ShortDescription f = []) ''short_description''
            (JString (ShortDescription f)) @
          [(''InputFile'', JString (InputFile f))] @
          [(''created_at'', JTime (CreatedAt f))] @
          omitempty (StackTrace f = []) ''stack_trace''
            (JArray (map StackFrame_json (StackTrace f))))"
    and none: "MoreDetails f = None \<longrightarrow> more = []"
    and more: "\<forall>k \<in> fst ` set more. k = ''more_details''"
    by (rule Finding_json_shape)
  have m: "k \<notin> fst ` set more" if "k \<noteq> ''more_details''" for k
    using more that by blast
  from kvs have kvs': "kvs = omitempty (Name f = []) ''name'' (JString (Name f)) @
          omitempty (Type f = []) ''type'' (JString (Type f)) @
          omitempty (InputData f = []) ''input_data'' (JBase64 (InputData f)) @
          omitempty (Logs f = []) ''logs'' (JArray (map JString (Logs f))) @
          omitempty (Details f = []) ''details'' (JString (Details f)) @
          omitempty (HumanReadableInput f = []) ''human_readable_input''
            (JString (HumanReadableInput f)) @
          more @
          omitempty (Tag f = 0) ''tag'' (JUint (Tag f)) @
          omitempty (ShortDescription f = []) ''short_description''
            (JString (ShortDescription f)) @
          [(''InputFile'', JString (InputFile f))] @
          [(''created_at'', JTime (CreatedAt f))] @
          omitempty (StackTrace f = []) ''stack_trace''
            (JArray (map StackFrame_json (StackTrace f)))"
    by simp
  show ?thesis
    unfolding kvs'
    by (intro conjI impI; simp add: image_Un omitempty_other_key omitempty_empty m none)
qed

section \<open>The file system after a store\<close>

lemma ReadFile_iff:
  "os_ReadFile w p = Inr b \<longleftrightarrow> path_check p = None \<and> lookup w p = Some (File b)"
  by (auto simp: os_ReadFile_def os_Stat_def split: option.splits node.splits sum.splits)

lemma copy_Copy_File:
  "os_ReadFile w src = Inr b \<Longrightarrow> copy_Copy src dest w = fcopy b dest w"
  by (auto simp: copy_Copy_def os_ReadFile_def split: sum.splits node.splits)

lemma fcopy_dest:
  assumes "fcopy b dest w = (None, w')"
  shows "path_check dest = None"
proof -
  obtain r1 w1 where m: "os_MkdirAll (filepath_Dir dest) w = (r1, w1)"
    by (cases "os_MkdirAll (filepath_Dir dest) w")
  from assms m have "os_WriteFile dest b w1 = (None, w')"
    by (auto simp: fcopy_def split: option.splits)
  from WriteFile_success[OF this] show ?thesis by simp
qed

text \<open>
  The file system after a store that took a free slot: directories may have been made,
  the slot and the corpus entry hold the bytes, and the input is gone.
\<close>

lemma store_effect:
  assumes slot: "find_slot w (finding_dir f pd) (InputFile f) 1 = FreeSlot i path"
      and ok: "moveInputFile f pd sd w = (None, f', w')"
      and inp: "os_ReadFile w (InputFile f) = Inr b"
  obtains t where
    "grows (map_of (fs w)) t"
    "map_of (fs w') =
       (t(abs_path (workdir w) path \<mapsto> File b,
          abs_path (workdir w) (seed_path f sd i) \<mapsto> File b))
        (abs_path (workdir w) (InputFile f) := None)"
    "map_of (fs w) (abs_path (workdir w) path) = None"
    "map_of (fs w) (abs_path (workdir w) (InputFile f)) = Some (File b)"
    "abs_path (workdir w) (seed_path f sd i) \<noteq> abs_path (workdir w) path \<longrightarrow>
       t (abs_path (workdir w) (seed_path f sd i)) \<noteq> Some Dir"
    "path_check path = None" "path_check (seed_path f sd i) = None"
    "workdir w' = workdir w" "lock_fails w' = lock_fails w" "unlock_fails w' = unlock_fails w"
proof -
  let ?K = "abs_path (workdir w)"
  let ?m = "map_of (fs w)"
  from slot ok obtain w1 w2 w3 w4 where
    c1: "copy_Copy (InputFile f) path w = (None, w1)"
    and c2: "os_MkdirAll sd w1 = (None, w2)"
    and c3: "copy_Copy (InputFile f) (seed_path f sd i) w2 = (None, w3)"
    and c4: "os_Remove (InputFile f) w3 = (None, w4)"
    and w': "w' = log_Debugf (''moved input file from '' @ InputFile f @ '' to '' @ path) w4"
    by (rule moveInputFile_stored)
  have e: "same_env w w1" "same_env w1 w2" "same_env w2 w3" "same_env w3 w4"
    using copy_Copy_effect[OF c1] MkdirAll_effect[OF c2] copy_Copy_effect[OF c3]
      Remove_effect[OF c4] by simp_all
  then have wd: "workdir w1 = workdir w" "workdir w2 = workdir w" "workdir w3 = workdir w"
    "workdir w4 = workdir w"
    and fl: "lock_fails w4 = lock_fails w" "unlock_fails w4 = unlock_fails w"
    by (simp_all add: same_env_def)
  from inp have pin: "path_check (InputFile f) = None" and min: "?m (?K (InputFile f)) = Some (File b)"
    by (simp_all add: ReadFile_iff lookup_def)
  \<comment> \<open>the copy into the slot\<close>
  from c1 have f1: "fcopy b path w = (None, w1)" by (simp add: copy_Copy_File[OF inp])
  from fcopy_success[OF f1] obtain t1 where t1: "grows ?m t1"
    and m1: "map_of (fs w1) = t1(?K path \<mapsto> File b)" by blast
  have pp: "path_check path = None" by (rule fcopy_dest[OF f1])
  from find_slot_FreeSlot[OF slot] have "fileutil_Exists w path = Inr False" by blast
  from Exists_False_lookup[OF this pp] have free: "?m (?K path) = None" by (simp add: lookup_def)
  with min have ne: "?K (InputFile f) \<noteq> ?K path" by auto
  have in1: "map_of (fs w1) (?K (InputFile f)) = Some (File b)"
    using grows_Some[OF t1 min] ne by (simp add: m1)
  \<comment> \<open>the corpus directory\<close>
  from MkdirAll_effect[OF c2] have g2: "grows (map_of (fs w1)) (map_of (fs w2))" by simp
  have in2: "map_of (fs w2) (?K (InputFile f)) = Some (File b)"
    by (rule grows_Some[OF g2 in1])
  then have r2: "os_ReadFile w2 (InputFile f) = Inr b"
    using pin by (simp add: ReadFile_iff lookup_def wd)
  \<comment> \<open>the copy into the corpus\<close>
  from c3 have f3: "fcopy b (seed_path f sd i) w2 = (None, w3)" by (simp add: copy_Copy_File[OF r2])
  from fcopy_success[OF f3] obtain t3 where t3: "grows (map_of (fs w2)) t3"
    and nd: "t3 (?K (seed_path f sd i)) \<noteq> Some Dir"
    and m3: "map_of (fs w3) = t3(?K (seed_path f sd i) \<mapsto> File b)" by (auto simp: wd)
  have ps: "path_check (seed_path f sd i) = None" by (rule fcopy_dest[OF f3])
  \<comment> \<open>the removal of the input\<close>
  from Remove_success[OF c4] have m4: "map_of (fs w4) = (map_of (fs w3))(?K (InputFile f) := None)"
    by (simp add: wd)
  \<comment> \<open>all directories made on the way, as one growth of the first file system\<close>
  have g13: "grows (t1(?K path \<mapsto> File b)) t3"
    using grows_trans[OF g2 t3] by (simp add: m1)
  define t where "t = t3(?K path := t1 (?K path))"
  have t3k: "t3 (?K path) = Some (File b)"
    using grows_Some[OF g13, of "?K path" "File b"] by simp
  have gt: "grows ?m t"
    unfolding grows_def
  proof
    fix k
    show "t k = ?m k \<or> (?m k = None \<and> t k = Some Dir)"
    proof (cases "k = ?K path")
      case True
      with t1 show ?thesis by (simp add: t_def grows_def)
    next
      case False
      from g13 have "t3 k = t1 k \<or> (t1 k = None \<and> t3 k = Some Dir)"
        using False by (auto simp: grows_def split: if_splits)
      moreover from t1 have "t1 k = ?m k \<or> (?m k = None \<and> t1 k = Some Dir)"
        by (simp add: grows_def)
      ultimately show ?thesis using False by (auto simp: t_def)
    qed
  qed
  have t3eq: "t3 = t(?K path \<mapsto> File b)"
    using t3k by (auto simp: t_def)
  have final: "map_of (fs w') =
       (t(?K path \<mapsto> File b, ?K (seed_path f sd i) \<mapsto> File b))(?K (InputFile f) := None)"
    by (simp add: w' log_Debugf_def m4 m3 t3eq)
  have nd': "?K (seed_path f sd i) \<noteq> ?K path \<longrightarrow> t (?K (seed_path f sd i)) \<noteq> Some Dir"
    using nd by (auto simp: t_def)
  show ?thesis
    using that[OF gt final free min nd' pp ps] wd fl by (simp add: w' log_Debugf_def)
qed

lemma Stat_iff:
  "os_Stat w p = Inr n \<longleftrightarrow> path_check p = None \<and> lookup w p = Some n"
  by (auto simp: os_Stat_def split: option.splits)

lemma lookup_events [simp]: "lookup (w\<lparr>events := ev\<rparr>) p = lookup w p"
  by (simp add: lookup_def)

lemma lock_acquired_ready:
  assumes "os_Stat w (finding_dir f pd) = Inr Dir"
      and "os_Stat w (lock_path f pd) = Inr n"
      and "\<not> lock_fails w"
  shows "lock_acquired f pd w = Some (w\<lparr>events := events w @ [Locked (lock_path f pd)]\<rparr>)"
proof -
  from assms(1) have mk: "os_MkdirAll (finding_dir f pd) w = (None, w)"
    by (simp add: Stat_iff MkdirAll_Dir)
  from assms(2) have nw: "filemutex_New (lock_path f pd) w = (None, w)"
    by (simp add: Stat_iff New_exists)
  show ?thesis
    using mk nw assms(3)
    by (simp add: lock_acquired_def Let_def mutex_Lock_def finding_dir_def lock_path_def)
qed

lemma moveInputFile_duplicate:
  "find_slot w (finding_dir f pd) (InputFile f) 1 = AlreadyStored \<Longrightarrow>
   moveInputFile f pd sd w = (None, f, w)"
  by (simp add: moveInputFile_def finding_dir_def)

lemma duplicate_store:
  assumes dir: "os_Stat w (finding_dir f pd) = Inr Dir"
      and lock: "os_Stat w (lock_path f pd) = Inr n"
      and dup: "find_slot w (finding_dir f pd) (InputFile f) 1 = AlreadyStored"
      and nl: "\<not> lock_fails w" and nu: "\<not> unlock_fails w"
  shows "MoveInputFile f pd sd w =
     (None, f, w\<lparr>events := events w @ [Locked (lock_path f pd), UnlockCalled (lock_path f pd)]\<rparr>)"
proof -
  let ?w3 = "w\<lparr>events := events w @ [Locked (lock_path f pd)]\<rparr>"
  have acq: "lock_acquired f pd w = Some ?w3"
    by (rule lock_acquired_ready[OF dir lock nl])
  have "find_slot ?w3 (finding_dir f pd) (InputFile f) 1 =
        find_slot w (finding_dir f pd) (InputFile f) 1"
    by (rule find_slot_cong) simp
  with dup have inner: "moveInputFile f pd sd ?w3 = (None, f, ?w3)"
    by (simp add: moveInputFile_duplicate)
  show ?thesis
    using nu by (simp add: MoveInputFile_acquired[OF acq] inner mutex_Unlock_def errors_WithStack_def)
qed

text \<open>What a successful \<open>MoveInputFile\<close> went through.\<close>

lemma MoveInputFile_success:
  assumes "MoveInputFile f pd sd w = (None, f', w1)"
  obtains w3 w4 where
    "lock_acquired f pd w = Some w3"
    "moveInputFile f pd sd w3 = (None, f', w4)"
    "w1 = w4\<lparr>events := events w4 @ [UnlockCalled (lock_path f pd)]\<rparr>"
    "\<not> lock_fails w" "\<not> unlock_fails w"
proof (cases "lock_acquired f pd w")
  case None
  from MoveInputFile_not_acquired[OF None, of sd] assms show ?thesis by simp
next
  case (Some w3)
  obtain err g w4 where inner: "moveInputFile f pd sd w3 = (err, g, w4)"
    by (cases "moveInputFile f pd sd w3")
  note env3 = lock_acquired_env[OF Some]
  note env4 = moveInputFile_env[OF inner]
  have uf: "unlock_fails w4 = unlock_fails w" using env3 env4 by simp
  from assms have "err = None \<and> g = f' \<and> \<not> unlock_fails w \<and>
      w1 = w4\<lparr>events := events w4 @ [UnlockCalled (lock_path f pd)]\<rparr>"
    by (auto simp: MoveInputFile_acquired[OF Some] inner mutex_Unlock_def uf
        errors_WithStack_def log_Error_def split: if_splits option.splits)
  with that[OF Some] inner env3 show ?thesis by simp
qed

text \<open>The file system in which the lock is held.\<close>

lemma lock_acquired_fs:
  assumes "lock_acquired f pd w = Some w3"
  obtains t where
    "grows (map_of (fs w)) t"
    "map_of (fs w3) = t \<or>
       (t (abs_path (workdir w) (lock_path f pd)) = None \<and>
        map_of (fs w3) = t(abs_path (workdir w) (lock_path f pd) \<mapsto> File []))"
    "os_Stat w3 (finding_dir f pd) = Inr Dir"
    "\<exists>n. os_Stat w3 (lock_path f pd) = Inr n"
proof -
  let ?d = "finding_dir f pd"
  let ?l = "lock_path f pd"
  obtain r1 w1 where c1: "os_MkdirAll ?d w = (r1, w1)" by (cases "os_MkdirAll ?d w")
  obtain r2 w2 where c2: "filemutex_New ?l w1 = (r2, w2)" by (cases "filemutex_New ?l w1")
  from assms c1 c2 have r: "r1 = None" "r2 = None" and w3: "w3 = w2\<lparr>events := events w2 @ [Locked ?l]\<rparr>"
    by (auto simp: lock_acquired_def Let_def finding_dir_def lock_path_def mutex_Lock_def
        split: option.splits if_splits)
  note c1 = c1[unfolded r] and c2 = c2[unfolded r]
  from MkdirAll_effect[OF c1] have g: "grows (map_of (fs w)) (map_of (fs w1))"
    and e1: "same_env w w1" by simp_all
  from New_effect[OF c2] have e2: "same_env w1 w2"
    and alt: "map_of (fs w2) = map_of (fs w1) \<or>
       (lookup w1 ?l = None \<and> map_of (fs w2) = (map_of (fs w1))(abs_path (workdir w1) ?l \<mapsto> File []))"
    by auto
  have wd: "workdir w1 = workdir w" "workdir w2 = workdir w"
    using e1 e2 by (simp_all add: same_env_def)
  from MkdirAll_success[OF c1] have d1: "lookup w1 ?d = Some Dir" and pd: "path_check ?d = None"
    by simp_all
  from New_success[OF c2] have l2: "lookup w2 ?l \<noteq> None" and pl: "path_check ?l = None"
    by simp_all
  have d2: "lookup w2 ?d = Some Dir"
    using alt d1 by (auto simp: lookup_def wd)
  have a: "map_of (fs w3) = map_of (fs w1) \<or>
       (map_of (fs w1) (abs_path (workdir w) ?l) = None \<and>
        map_of (fs w3) = (map_of (fs w1))(abs_path (workdir w) ?l \<mapsto> File []))"
    using alt by (auto simp: w3 lookup_def wd)
  have b: "os_Stat w3 ?d = Inr Dir"
    using d2 pd by (simp add: Stat_iff w3)
  have c: "\<exists>n. os_Stat w3 ?l = Inr n"
    using l2 pl by (auto simp: Stat_iff w3)
  from that[OF g a b c] show ?thesis .
qed

lemma find_slot_inp_cong:
  assumes "os_ReadFile w inp' = os_ReadFile w inp"
  shows "find_slot w d inp' k = find_slot w d inp k"
proof (induction k rule: find_slot_induct[of w d inp])
  case (step k)
  show ?case
    by (subst find_slot_unfold, subst (2) find_slot_unfold)
       (auto simp: assms step split: sum.splits)
qed

lemma holds_events: "holds v f pd b \<Longrightarrow> holds (v\<lparr>events := ev\<rparr>) f pd b"
proof -
  assume h: "holds v f pd b"
  have st: "os_Stat (v\<lparr>events := ev\<rparr>) p = os_Stat v p" for p
    by (auto simp: os_Stat_def split: option.splits)
  have rd: "os_ReadFile (v\<lparr>events := ev\<rparr>) p = os_ReadFile v p" for p
    by (simp add: os_ReadFile_def st)
  have fsl: "find_slot (v\<lparr>events := ev\<rparr>) d inp k = find_slot v d inp k" for d inp k
    by (rule find_slot_cong) simp
  from h show ?thesis
    by (simp add: holds_def st rd fsl)
qed

lemma first_store_holds:
  assumes first: "MoveInputFile f pd sd w = (None, f', w1)"
      and bytes: "os_ReadFile w (InputFile f) = Inr b"
      and notlock: "abs_path (workdir w) (InputFile f) \<noteq> abs_path (workdir w) (lock_path f pd)"
  shows "holds w1 f pd b \<and> workdir w1 = workdir w"
proof -
  let ?d = "finding_dir f pd"
  let ?l = "lock_path f pd"
  let ?K = "abs_path (workdir w)"
  from first obtain w3 w4 where
    acq: "lock_acquired f pd w = Some w3"
    and inner: "moveInputFile f pd sd w3 = (None, f', w4)"
    and w1: "w1 = w4\<lparr>events := events w4 @ [UnlockCalled ?l]\<rparr>"
    and nl: "\<not> lock_fails w" and nu: "\<not> unlock_fails w"
    by (rule MoveInputFile_success)
  note env3 = lock_acquired_env[OF acq]
  then have wd3: "workdir w3 = workdir w" by simp
  from acq obtain t0 where g0: "grows (map_of (fs w)) t0"
    and alt0: "map_of (fs w3) = t0 \<or>
       (t0 (?K ?l) = None \<and> map_of (fs w3) = t0(?K ?l \<mapsto> File []))"
    and dir3: "os_Stat w3 ?d = Inr Dir"
    and lock3: "\<exists>n. os_Stat w3 ?l = Inr n"
    by (rule lock_acquired_fs)
  from bytes have pin: "path_check (InputFile f) = None"
    and min: "map_of (fs w) (?K (InputFile f)) = Some (File b)"
    by (simp_all add: ReadFile_iff lookup_def)
  have "map_of (fs w3) (?K (InputFile f)) = Some (File b)"
    using alt0 grows_Some[OF g0 min] by auto
  then have bytes3: "os_ReadFile w3 (InputFile f) = Inr b"
    using pin by (simp add: ReadFile_iff lookup_def wd3)
  show ?thesis
  proof (cases "find_slot w3 ?d (InputFile f) 1")
    case (Failed e)
    with inner show ?thesis by (simp add: moveInputFile_def finding_dir_def)
  next
    case AlreadyStored
    from moveInputFile_duplicate[OF AlreadyStored, of sd] inner have w4: "w4 = w3" by simp
    have "find_slot w3 ?d inp 1 = AlreadyStored" if "os_ReadFile w3 inp = Inr b" for inp
      using find_slot_inp_cong[of w3 inp "InputFile f" ?d 1] that bytes3 AlreadyStored by simp
    then have "holds w3 f pd b"
      using dir3 lock3 env3 nu by (simp add: holds_def)
    then show ?thesis
      unfolding w1 w4 using wd3 by (simp add: holds_events)
  next
    case (FreeSlot i path)
    let ?m = "map_of (fs w3)"
    from FreeSlot inner bytes3 obtain t where
      gt: "grows ?m t"
      and m4: "map_of (fs w4) =
         (t(?K path \<mapsto> File b, ?K (seed_path f sd i) \<mapsto> File b))(?K (InputFile f) := None)"
      and free: "?m (?K path) = None"
      and min3: "?m (?K (InputFile f)) = Some (File b)"
      and nd: "?K (seed_path f sd i) \<noteq> ?K path \<longrightarrow> t (?K (seed_path f sd i)) \<noteq> Some Dir"
      and pp: "path_check path = None"
      and env4: "workdir w4 = workdir w3" "lock_fails w4 = lock_fails w3"
        "unlock_fails w4 = unlock_fails w3"
      by (rule store_effect[where sd = sd]) (simp_all add: wd3)
    note fsl = find_slot_FreeSlot[OF FreeSlot]
    from fsl have path: "path = slot_path ?d i" and i1: "1 \<le> i" by simp_all
    have wd4: "workdir w4 = workdir w" using env4 wd3 by simp
    have ne: "?K path \<noteq> ?K (InputFile f)" using free min3 by auto
    \<comment> \<open>a file or directory that is not the input is still there\<close>
    have keep: "map_of (fs w4) k \<noteq> None" if "?m k = Some n" "k \<noteq> ?K (InputFile f)" for k n
      using grows_Some[OF gt that(1)] that(2) by (simp add: m4)
    have keepDir: "map_of (fs w4) k = Some Dir" if k: "?m k = Some Dir" for k
    proof -
      have "k \<noteq> ?K (InputFile f)" "k \<noteq> ?K path" using k min3 free by auto
      moreover have "t k = Some Dir" by (rule grows_Some[OF gt k])
      moreover from this nd \<open>k \<noteq> ?K path\<close> have "k \<noteq> ?K (seed_path f sd i)" by auto
      ultimately show ?thesis by (simp add: m4)
    qed
    have keepFile: "\<exists>c'. map_of (fs w4) k = Some (File c')"
      if k: "?m k = Some (File c)" "c \<noteq> b" for k c
    proof -
      have "k \<noteq> ?K (InputFile f)" using k min3 by auto
      moreover have "t k = Some (File c)" by (rule grows_Some[OF gt k(1)])
      ultimately show ?thesis by (simp add: m4)
    qed
    have sloti: "os_ReadFile w4 (slot_path ?d i) = Inr b"
      using ne pp by (simp add: ReadFile_iff lookup_def wd4 m4 path[symmetric])
    have before: "\<exists>c. os_ReadFile w4 (slot_path ?d j) = Inr c" if "1 \<le> j" "j < i" for j
    proof -
      from fsl that obtain c b' where c: "os_ReadFile w3 (slot_path ?d j) = Inr c"
        and b': "os_ReadFile w3 (InputFile f) = Inr b'" and "c \<noteq> b'" by blast
      with bytes3 have cb: "c \<noteq> b" by simp
      from c have pc: "path_check (slot_path ?d j) = None"
        and mj: "?m (?K (slot_path ?d j)) = Some (File c)"
        by (simp_all add: ReadFile_iff lookup_def wd3)
      from keepFile[OF mj cb] pc show ?thesis
        by (auto simp: ReadFile_iff lookup_def wd4)
    qed
    have stored: "find_slot w4 ?d inp 1 = AlreadyStored" if "os_ReadFile w4 inp = Inr b" for inp
      using that sloti before i1 by (intro find_slot_hit[where i = i and b = b]) auto
    from dir3 have "?m (?K ?d) = Some Dir" and pd: "path_check ?d = None"
      by (simp_all add: Stat_iff lookup_def wd3)
    from keepDir[OF this(1)] pd have dir4: "os_Stat w4 ?d = Inr Dir"
      by (simp add: Stat_iff lookup_def wd4)
    from lock3 obtain n where "?m (?K ?l) = Some n" and pl: "path_check ?l = None"
      by (auto simp: Stat_iff lookup_def wd3)
    from keep[OF this(1)] notlock pl have lock4: "\<exists>n. os_Stat w4 ?l = Inr n"
      by (auto simp: Stat_iff lookup_def wd4)
    have "holds w4 f pd b"
      using dir4 lock4 stored env4 env3 nu by (simp add: holds_def)
    then show ?thesis
      unfolding w1 using wd4 by (simp add: holds_events)
  qed
qed

lemma holds_duplicate:
  assumes h: "holds v f pd b"
      and name: "Name g = Name f"
      and bytes: "os_ReadFile v (InputFile g) = Inr b"
  shows "MoveInputFile g pd sd v =
     (None, g, v\<lparr>events := events v @ [Locked (lock_path f pd), UnlockCalled (lock_path f pd)]\<rparr>)"
proof -
  have d: "finding_dir g pd = finding_dir f pd" and l: "lock_path g pd = lock_path f pd"
    using name by (simp_all add: finding_dir_def lock_path_def)
  from h obtain n where "os_Stat v (finding_dir g pd) = Inr Dir"
    "os_Stat v (lock_path g pd) = Inr n"
    "find_slot v (finding_dir g pd) (InputFile g) 1 = AlreadyStored"
    "\<not> lock_fails v" "\<not> unlock_fails v"
    using bytes by (auto simp: holds_def d l)
  from duplicate_store[OF this] show ?thesis by (simp add: l)
qed

lemma store_all_holds:
  assumes "holds v f pd b"
      and "\<forall>g \<in> set gs. Name g = Name f \<and> os_ReadFile v (InputFile g) = Inr b"
  shows "fst (store_all gs pd sd v) = map (\<lambda>g. (None, g)) gs \<and>
         fs (snd (store_all gs pd sd v)) = fs v"
  using assms
proof (induction gs arbitrary: v)
  case Nil
  then show ?case by simp
next
  case (Cons g gs)
  let ?v' = "v\<lparr>events := events v @ [Locked (lock_path f pd), UnlockCalled (lock_path f pd)]\<rparr>"
  from Cons.prems have g: "Name g = Name f" "os_ReadFile v (InputFile g) = Inr b" by simp_all
  have call: "MoveInputFile g pd sd v = (None, g, ?v')"
    by (rule holds_duplicate[OF Cons.prems(1) g])
  have h': "holds ?v' f pd b" by (rule holds_events[OF Cons.prems(1)])
  have rd: "os_ReadFile ?v' p = os_ReadFile v p" for p
    by (auto simp: os_ReadFile_def os_Stat_def split: option.splits)
  from Cons.prems(2) have rest: "\<forall>g \<in> set gs. Name g = Name f \<and> os_ReadFile ?v' (InputFile g) = Inr b"
    by (simp add: rd)
  from Cons.IH[OF h' rest] show ?case
    by (cases "store_all gs pd sd ?v'") (simp add: call)
qed

section \<open>Slot, lock and corpus paths are apart\<close>

lemma simple_lockFile: "simple_elem lockFile"
  by (simp add: simple_elem_def lockFile_def)

lemma lock_key_eq:
  "abs_path wd (lock_path f pd) = slot_key_prefix wd (finding_dir f pd) @ lockFile"
proof -
  have "lock_path f pd = clean_prefix (with_slash (finding_dir f pd)) @ lockFile"
    using Join_append_simple[OF simple_lockFile, of "finding_dir f pd" "[]"]
    by (simp add: lock_path_def finding_dir_def)
  then show ?thesis
    using abs_path_append_simple[OF simple_lockFile, of wd "clean_prefix (with_slash (finding_dir f pd))"]
    by (simp add: slot_key_prefix_def)
qed

lemma slot_key_not_lock:
  "abs_path wd (slot_path (finding_dir f pd) k) \<noteq> abs_path wd (lock_path f pd)"
  by (simp add: slot_key_eq lock_key_eq nameCrashingInput_def lockFile_def)

lemma simple_seed_suffix: "simple_elem (''-'' @ strconv_Itoa i)"
  using Itoa_digits[of i] by (auto simp: simple_elem_def)

lemma seed_key_eq:
  "abs_path wd (seed_path f sd i) = seed_key_prefix wd f sd @ ''-'' @ strconv_Itoa i"
proof -
  have "seed_path f sd i = clean_prefix (with_slash sd @ Name f) @ ''-'' @ strconv_Itoa i"
    using Join_append_simple[OF simple_seed_suffix, of sd "Name f" i]
    by (simp add: seed_path_def)
  then show ?thesis
    using abs_path_append_simple[OF simple_seed_suffix, of wd "clean_prefix (with_slash sd @ Name f)" i]
    by (simp add: seed_key_prefix_def)
qed

lemma seed_key_inj:
  "abs_path wd (seed_path f sd i) = abs_path wd (seed_path f sd j) \<Longrightarrow> i = j"
  by (simp add: seed_key_eq Itoa_inj)

lemma takeWhile_until: "c \<notin> set xs \<Longrightarrow> takeWhile (\<lambda>a. a \<noteq> c) (xs @ c # ys) = xs"
  by (induction xs) auto

lemma after_last_dash:
  assumes "a @ ''-'' @ x = b @ ''-'' @ y" and "CHR ''-'' \<notin> set x" and "CHR ''-'' \<notin> set y"
  shows "x = y"
proof -
  have "rev x @ ''-'' @ rev a = rev y @ ''-'' @ rev b"
    using arg_cong[OF assms(1), of rev] by simp
  then have "takeWhile (\<lambda>c. c \<noteq> CHR ''-'') (rev x @ ''-'' @ rev a) =
             takeWhile (\<lambda>c. c \<noteq> CHR ''-'') (rev y @ ''-'' @ rev b)"
    by simp
  moreover have "takeWhile (\<lambda>c. c \<noteq> CHR ''-'') (rev x @ ''-'' @ rev a) = rev x"
    using assms(2) by (simp add: takeWhile_until)
  moreover have "takeWhile (\<lambda>c. c \<noteq> CHR ''-'') (rev y @ ''-'' @ rev b) = rev y"
    using assms(3) by (simp add: takeWhile_until)
  ultimately show ?thesis by simp
qed

lemma Itoa_no_dash: "CHR ''-'' \<notin> set (strconv_Itoa i)"
  using Itoa_digits[of i] by auto

lemma seed_key_not_slot:
  assumes "i \<noteq> j"
  shows "abs_path wd (seed_path f sd i) \<noteq> abs_path wd (slot_path d j)"
proof
  assume "abs_path wd (seed_path f sd i) = abs_path wd (slot_path d j)"
  then have "seed_key_prefix wd f sd @ ''-'' @ strconv_Itoa i =
             (slot_key_prefix wd d @ nameCrashingInput) @ ''-'' @ strconv_Itoa j"
    by (simp add: seed_key_eq slot_key_eq)
  from after_last_dash[OF this Itoa_no_dash Itoa_no_dash] have "strconv_Itoa i = strconv_Itoa j" .
  with assms show False by (auto dest: Itoa_inj)
qed

text \<open>
  What one successful store of bytes that no slot holds yet does: it takes a slot \<open>i\<close>
  and the corpus entry \<open>i\<close>; every other file stays, and no other file appears but
  the lock file.
\<close>

lemma store_call:
  assumes call: "MoveInputFile f pd sd w = (None, f', w1)"
      and bytes: "os_ReadFile w (InputFile f) = Inr b"
      and new: "\<forall>k. os_ReadFile w (slot_path (finding_dir f pd) k) \<noteq> Inr b"
      and apart: "\<forall>k. abs_path (workdir w) (InputFile f) \<noteq> abs_path (workdir w) (seed_path f sd k)"
  obtains i where
    "1 \<le> i"
    "seedPath f' = seed_path f sd i"
    "os_ReadFile w1 (slot_path (finding_dir f pd) i) = Inr b"
    "os_ReadFile w1 (seed_path f sd i) = Inr b"
    "\<forall>k. 1 \<le> k \<and> k < i \<longrightarrow> (\<exists>c. os_ReadFile w (slot_path (finding_dir f pd) k) = Inr c)"
    "\<forall>c. os_ReadFile w (slot_path (finding_dir f pd) i) \<noteq> Inr c"
    "\<forall>k c. map_of (fs w) k = Some (File c) \<and> k \<noteq> abs_path (workdir w) (InputFile f) \<and>
            k \<noteq> abs_path (workdir w) (slot_path (finding_dir f pd) i) \<and>
            k \<noteq> abs_path (workdir w) (seed_path f sd i) \<longrightarrow>
            map_of (fs w1) k = Some (File c)"
    "\<forall>k c. map_of (fs w1) k = Some (File c) \<longrightarrow>
            map_of (fs w) k = Some (File c) \<or>
            k = abs_path (workdir w) (lock_path f pd) \<or>
            (c = b \<and> (k = abs_path (workdir w) (slot_path (finding_dir f pd) i) \<or>
                      k = abs_path (workdir w) (seed_path f sd i)))"
    "workdir w1 = workdir w"
proof -
  let ?d = "finding_dir f pd"
  let ?l = "lock_path f pd"
  let ?K = "abs_path (workdir w)"
  let ?orig = "map_of (fs w)"
  from call obtain w3 w4 where
    acq: "lock_acquired f pd w = Some w3"
    and inner: "moveInputFile f pd sd w3 = (None, f', w4)"
    and w1: "w1 = w4\<lparr>events := events w4 @ [UnlockCalled ?l]\<rparr>"
    by (rule MoveInputFile_success)
  note env3 = lock_acquired_env[OF acq]
  then have wd3: "workdir w3 = workdir w" by simp
  from acq obtain t0 where g0: "grows ?orig t0"
    and alt0: "map_of (fs w3) = t0 \<or>
       (t0 (?K ?l) = None \<and> map_of (fs w3) = t0(?K ?l \<mapsto> File []))"
    by (rule lock_acquired_fs)
  let ?m = "map_of (fs w3)"
  \<comment> \<open>between the world of the call and the world in which the lock is held\<close>
  have up: "?m k = Some n" if "?orig k = Some n" for k n
    using alt0 grows_Some[OF g0 that] by auto
  have down: "?orig k = Some (File c)" if "?m k = Some (File c)" "k \<noteq> ?K ?l" for k c
    using alt0 that grows_File[OF g0, of k c] by auto
  have downNone: "?orig k = None" if "?m k = None" for k
    using alt0 that grows_None[OF g0, of k] by (auto split: if_splits)
  from bytes have pin: "path_check (InputFile f) = None"
    and min0: "?orig (?K (InputFile f)) = Some (File b)"
    by (simp_all add: ReadFile_iff lookup_def)
  have bytes3: "os_ReadFile w3 (InputFile f) = Inr b"
    using up[OF min0] pin by (simp add: ReadFile_iff lookup_def wd3)
  have slotdown: "os_ReadFile w (slot_path ?d k) = Inr c" if "os_ReadFile w3 (slot_path ?d k) = Inr c" for k c
    using that down[of "?K (slot_path ?d k)" c] slot_key_not_lock[of "workdir w" f pd k]
    by (simp add: ReadFile_iff lookup_def wd3)
  show ?thesis
  proof (cases "find_slot w3 ?d (InputFile f) 1")
    case (Failed e)
    with inner show ?thesis by (simp add: moveInputFile_def finding_dir_def)
  next
    case AlreadyStored
    from find_slot_AlreadyStored[OF this] bytes3 obtain j where
      "os_ReadFile w3 (slot_path ?d j) = Inr b" by auto
    from slotdown[OF this] new show ?thesis by simp
  next
    case (FreeSlot i path)
    from FreeSlot inner bytes3 obtain t where
      gt: "grows ?m t"
      and m4: "map_of (fs w4) =
         (t(?K path \<mapsto> File b, ?K (seed_path f sd i) \<mapsto> File b))(?K (InputFile f) := None)"
      and free: "?m (?K path) = None"
      and pp: "path_check path = None"
      and ps: "path_check (seed_path f sd i) = None"
      and wd4: "workdir w4 = workdir w3"
      by (rule store_effect[where sd = sd]) (simp_all add: wd3)
    from moveInputFile_stored[OF FreeSlot inner] have sp: "seedPath f' = seed_path f sd i"
      by (elim meta_allE meta_impE) simp_all
    note fsl = find_slot_FreeSlot[OF FreeSlot]
    from fsl have path: "path = slot_path ?d i" and i1: "1 \<le> i" by simp_all
    have wd1: "workdir w1 = workdir w" by (simp add: w1 wd4 wd3)
    have m1: "map_of (fs w1) = map_of (fs w4)" by (simp add: w1)
    have min: "?m (?K (InputFile f)) = Some (File b)" by (rule up[OF min0])
    have ne: "?K path \<noteq> ?K (InputFile f)" using free min by auto
    have c3: "os_ReadFile w1 (slot_path ?d i) = Inr b"
      using ne pp by (simp add: ReadFile_iff lookup_def wd1 m1 m4 path[symmetric])
    from apart have ns: "?K (seed_path f sd i) \<noteq> ?K (InputFile f)" by metis
    have c4: "os_ReadFile w1 (seed_path f sd i) = Inr b"
      using ns ps by (simp add: ReadFile_iff lookup_def wd1 m1 m4)
    have c5: "\<forall>k. 1 \<le> k \<and> k < i \<longrightarrow> (\<exists>c. os_ReadFile w (slot_path ?d k) = Inr c)"
    proof (intro allI impI)
      fix k assume "1 \<le> k \<and> k < i"
      with fsl obtain c where "os_ReadFile w3 (slot_path ?d k) = Inr c" by blast
      from slotdown[OF this] show "\<exists>c. os_ReadFile w (slot_path ?d k) = Inr c" by blast
    qed
    have c6: "\<forall>c. os_ReadFile w (slot_path ?d i) \<noteq> Inr c"
      using downNone[OF free] by (simp add: ReadFile_iff lookup_def path)
    have c7: "\<forall>k c. ?orig k = Some (File c) \<and> k \<noteq> ?K (InputFile f) \<and>
            k \<noteq> ?K (slot_path ?d i) \<and> k \<noteq> ?K (seed_path f sd i) \<longrightarrow>
            map_of (fs w1) k = Some (File c)"
    proof (intro allI impI)
      fix k c
      assume a: "?orig k = Some (File c) \<and> k \<noteq> ?K (InputFile f) \<and>
            k \<noteq> ?K (slot_path ?d i) \<and> k \<noteq> ?K (seed_path f sd i)"
      then have "t k = Some (File c)" using grows_Some[OF gt up] by blast
      with a show "map_of (fs w1) k = Some (File c)"
        by (simp add: m1 m4 path)
    qed
    have c8: "\<forall>k c. map_of (fs w1) k = Some (File c) \<longrightarrow>
            ?orig k = Some (File c) \<or> k = ?K ?l \<or>
            (c = b \<and> (k = ?K (slot_path ?d i) \<or> k = ?K (seed_path f sd i)))"
    proof (intro allI impI)
      fix k c
      assume a: "map_of (fs w1) k = Some (File c)"
      show "?orig k = Some (File c) \<or> k = ?K ?l \<or>
            (c = b \<and> (k = ?K (slot_path ?d i) \<or> k = ?K (seed_path f sd i)))"
      proof (cases "k = ?K (slot_path ?d i) \<or> k = ?K (seed_path f sd i)")
        case True
        with a show ?thesis by (auto simp: m1 m4 path split: if_splits)
      next
        case False
        with a have "t k = Some (File c)" by (auto simp: m1 m4 path split: if_splits)
        from grows_File[OF gt this] have "?m k = Some (File c)" .
        with down show ?thesis by blast
      qed
    qed
    from that[OF i1 sp c3 c4 c5 c6 c7 c8 wd1] show ?thesis .
  qed
qed

section \<open>The scenario world has no slot files\<close>

lemma slot_key_dash: "CHR ''-'' \<in> set (abs_path wd (slot_path d k))"
  by (simp add: slot_key_eq)

lemma seed_key_dash: "CHR ''-'' \<in> set (abs_path wd (seed_path f sd k))"
  by (simp add: seed_key_eq)

lemma no_dash_neq: "CHR ''-'' \<notin> set a \<Longrightarrow> CHR ''-'' \<in> set b \<Longrightarrow> a \<noteq> b"
  by auto

lemma store_world_keys: "map_of (fs store_world) k = Some n \<Longrightarrow> CHR ''-'' \<notin> set k"
  by (auto simp: store_world_def split: if_splits)

lemma store_world_no_slots:
  "os_ReadFile store_world (slot_path d k) \<noteq> Inr c"
  using store_world_keys[of "abs_path (workdir store_world) (slot_path d k)" "File c"]
    slot_key_dash[of "workdir store_world" d k]
  by (auto simp: ReadFile_iff lookup_def)

section \<open>Storing the same bytes again\<close>

text \<open>
  C1 (as amended). After a first successful store of an input with bytes \<open>b\<close>, an input
  that is not the lock file of the finding, any number of later stores, for the same
  finding name, of input files that hold the same bytes all succeed and leave the file
  system exactly as the first store left it: no further slot file, no further corpus
  file. A repeated call rewrites nothing: it returns the finding it was given, with the
  \<open>seedPath\<close>, \<open>InputFile\<close> and logs it came with.
\<close>

theorem repeated_store_changes_nothing:
  assumes first: "MoveInputFile f pd sd w = (None, f', w1)"
      and bytes: "os_ReadFile w (InputFile f) = Inr b"
      and notlock: "abs_path (workdir w) (InputFile f) \<noteq> abs_path (workdir w) (lock_path f pd)"
      and later: "\<forall>g \<in> set gs. Name g = Name f \<and> os_ReadFile w1 (InputFile g) = Inr b"
  shows "fst (store_all gs pd sd w1) = map (\<lambda>g. (None, g)) gs \<and>
         fs (snd (store_all gs pd sd w1)) = fs w1"
proof -
  from first_store_holds[OF first bytes notlock] have "holds w1 f pd b" by simp
  from store_all_holds[OF this later] show ?thesis .
qed

theorem repeated_store_changes_nothing_witness:
  "MoveInputFile store_finding ''/P'' ''/corpus'' store_world = (None, moved_finding, stored_world) \<and>
   os_ReadFile store_world (InputFile store_finding) = Inr ''AAAA'' \<and>
   os_ReadFile stored_world (InputFile same_bytes_finding) = Inr ''AAAA'' \<and>
   fst (store_all [same_bytes_finding, same_bytes_finding] ''/P'' ''/corpus'' stored_world) =
     [(None, same_bytes_finding), (None, same_bytes_finding)] \<and>
   fs (snd (store_all [same_bytes_finding, same_bytes_finding] ''/P'' ''/corpus'' stored_world)) =
     fs stored_world"
proof -
  have h1: "MoveInputFile store_finding ''/P'' ''/corpus'' store_world =
      (None, moved_finding, stored_world)"
    by code_simp
  have h2: "os_ReadFile store_world (InputFile store_finding) = Inr ''AAAA''"
    by code_simp
  have h3: "abs_path (workdir store_world) (InputFile store_finding) \<noteq>
      abs_path (workdir store_world) (lock_path store_finding ''/P'')"
    by code_simp
  have r: "os_ReadFile stored_world (InputFile same_bytes_finding) = Inr ''AAAA''"
    by code_simp
  have n: "Name same_bytes_finding = Name store_finding"
    by code_simp
  have h4: "\<forall>g \<in> set [same_bytes_finding, same_bytes_finding].
      Name g = Name store_finding \<and> os_ReadFile stored_world (InputFile g) = Inr ''AAAA''"
    using r n by simp
  from repeated_store_changes_nothing[OF h1 h2 h3 h4] h1 h2 r show ?thesis
    by simp
qed

text \<open>
  The claim as stated fails: in the scenario of the spec the first store sets \<open>seedPath\<close>
  and rewrites \<open>InputFile\<close>, the store of a second file with the same bytes does
  neither.
\<close>

theorem repeated_store_rewrites_differ:
  "MoveInputFile store_finding ''/P'' ''/corpus'' store_world = (None, moved_finding, stored_world) \<and>
   os_ReadFile store_world (InputFile store_finding) = Inr ''AAAA'' \<and>
   os_ReadFile stored_world (InputFile same_bytes_finding) = Inr ''AAAA'' \<and>
   fst (MoveInputFile same_bytes_finding ''/P'' ''/corpus'' stored_world) = None \<and>
   seedPath moved_finding = ''/corpus/crash-abc-1'' \<and>
   seedPath (fst (snd (MoveInputFile same_bytes_finding ''/P'' ''/corpus'' stored_world))) = [] \<and>
   InputFile moved_finding = ''.cifuzz-findings/crash-abc/crashing-input-1'' \<and>
   InputFile (fst (snd (MoveInputFile same_bytes_finding ''/P'' ''/corpus'' stored_world))) =
     ''/tmp/in2''"
  by code_simp

section \<open>A store that finds a duplicate\<close>

text \<open>
  C2 (as amended). When the directory of the finding and its lock file are in place and
  locking works, a store call that finds its input to be byte for byte what some slot
  already holds succeeds and changes nothing in the file system: the directory of the
  finding is as before, no corpus entry is added, and the source input file is still
  there. The finding is returned as it was given.
\<close>

theorem duplicate_store_changes_nothing:
  assumes "os_Stat w (finding_dir f pd) = Inr Dir"
      and "os_Stat w (lock_path f pd) = Inr n"
      and "find_slot w (finding_dir f pd) (InputFile f) 1 = AlreadyStored"
      and "\<not> lock_fails w" and "\<not> unlock_fails w"
  shows "MoveInputFile f pd sd w =
           (None, f,
            w\<lparr>events := events w @ [Locked (lock_path f pd), UnlockCalled (lock_path f pd)]\<rparr>) \<and>
         (\<exists>b. os_ReadFile (snd (snd (MoveInputFile f pd sd w))) (InputFile f) = Inr b)"
proof -
  note call = duplicate_store[OF assms, of sd]
  from find_slot_AlreadyStored[OF assms(3)] obtain b where "os_ReadFile w (InputFile f) = Inr b"
    by blast
  then have "os_ReadFile (snd (snd (MoveInputFile f pd sd w))) (InputFile f) = Inr b"
    by (simp add: call ReadFile_iff)
  with call show ?thesis by blast
qed

theorem duplicate_store_changes_nothing_witness:
  "os_Stat stored_world (finding_dir same_bytes_finding ''/P'') = Inr Dir \<and>
   os_Stat stored_world (lock_path same_bytes_finding ''/P'') = Inr (File []) \<and>
   find_slot stored_world (finding_dir same_bytes_finding ''/P'') (InputFile same_bytes_finding) 1 =
     AlreadyStored \<and>
   \<not> lock_fails stored_world \<and> \<not> unlock_fails stored_world \<and>
   MoveInputFile same_bytes_finding ''/P'' ''/corpus'' stored_world =
     (None, same_bytes_finding,
      stored_world\<lparr>events := events stored_world @
        [Locked (lock_path same_bytes_finding ''/P''),
         UnlockCalled (lock_path same_bytes_finding ''/P'')]\<rparr>)"
proof -
  have h1: "os_Stat stored_world (finding_dir same_bytes_finding ''/P'') = Inr Dir"
    by code_simp
  have h2: "os_Stat stored_world (lock_path same_bytes_finding ''/P'') = Inr (File [])"
    by code_simp
  have h3: "find_slot stored_world (finding_dir same_bytes_finding ''/P'')
      (InputFile same_bytes_finding) 1 = AlreadyStored"
    by code_simp
  have h4: "\<not> lock_fails stored_world" and h5: "\<not> unlock_fails stored_world"
    by (simp_all add: stored_world_def)
  note t = duplicate_store_changes_nothing[OF h1 h2 h3 h4 h5, of "''/corpus''", THEN conjunct1]
  show ?thesis
    by (intro conjI h1 h2 h3 h4 h5 t)
qed

text \<open>
  The claim as stated fails: in the scenario of the spec the second store succeeds and
  the file \<open>/tmp/in2\<close> it was given is still there afterwards.
\<close>

theorem duplicate_store_keeps_source:
  "MoveInputFile store_finding ''/P'' ''/corpus'' store_world = (None, moved_finding, stored_world) \<and>
   InputFile same_bytes_finding = ''/tmp/in2'' \<and>
   os_ReadFile stored_world ''/tmp/in2'' = Inr ''AAAA'' \<and>
   os_ReadFile stored_world ''/P/.cifuzz-findings/crash-abc/crashing-input-1'' = Inr ''AAAA'' \<and>
   fst (MoveInputFile same_bytes_finding ''/P'' ''/corpus'' stored_world) = None \<and>
   os_ReadFile (snd (snd (MoveInputFile same_bytes_finding ''/P'' ''/corpus'' stored_world)))
     ''/tmp/in2'' = Inr ''AAAA''"
  by code_simp

section \<open>Saving a finding twice\<close>

text \<open>
  C3. When \<open>Save\<close> has succeeded for a finding, a second \<open>Save\<close> of any finding with
  the same name returns the AlreadyExists error, which is a variant of its own and not
  an error of the operating system, and changes nothing: the world is the same, and the
  file of the record still holds the encoding of the first finding.
\<close>

theorem Save_twice:
  assumes first: "Save render f projectDir w = (None, w1)"
      and name: "Name g = Name f"
  shows "Save render' g projectDir w1 =
           (Some (AlreadyExistsError (Errorf (''Finding '' @ Name f @ '' already exists''))), w1) \<and>
         (\<forall>e. AlreadyExistsError (Errorf (''Finding '' @ Name f @ '' already exists''))
              \<noteq> SyscallError e) \<and>
         os_ReadFile w1 (json_path projectDir (Name f)) = json_MarshalIndent render f"
proof -
  let ?d = "filepath_Join [projectDir, nameFindingsDir, Name f]"
  let ?j = "filepath_Join [?d, nameJsonFile]"
  obtain r0 w0 where mk: "os_MkdirAll ?d w = (r0, w0)" by (cases "os_MkdirAll ?d w")
  from first mk have r0: "r0 = None"
    by (auto simp: Save_def Let_def errors_WithStack_def split: option.splits)
  note mk = mk[unfolded r0]
  from first mk have ex: "fileutil_Exists w0 ?j = Inr False" and sj: "saveJson render f ?j w0 = (None, w1)"
    by (auto simp: Save_def Let_def split: sum.splits bool.splits)
  from sj obtain bytes where enc: "json_MarshalIndent render f = Inr bytes"
    and wr: "os_WriteFile ?j bytes w0 = (None, w1)"
    by (auto simp: saveJson_def errors_WithStack_def split: sum.splits option.splits prod.splits)
  note W = WriteFile_success[OF wr]
  note D = MkdirAll_success[OF mk]
  have wd: "workdir w1 = workdir w0" using W by (simp add: same_env_def)
  have dir1: "lookup w1 ?d = Some Dir"
    using W D by (auto simp: lookup_def wd)
  have file1: "lookup w1 ?j = Some (File bytes)"
    using W by (simp add: lookup_def wd)
  have mk1: "os_MkdirAll ?d w1 = (None, w1)"
    using D dir1 by (simp add: MkdirAll_Dir)
  have ex1: "fileutil_Exists w1 ?j = Inr True"
    using W file1 by (simp add: Exists_lookup_Some)
  have rd: "os_ReadFile w1 ?j = Inr bytes"
    using W file1 by (simp add: ReadFile_File)
  show ?thesis
    using mk1 ex1 rd enc name
    by (simp add: Save_def Let_def WrapAlreadyExistsError_def json_path_def)
qed

theorem Save_twice_witness:
  "Save (\<lambda>j. ''{first}'') first_finding ''/P'' save_world = (None, save_world_after) \<and>
   Name second_finding = Name first_finding \<and>
   Save (\<lambda>j. ''{second}'') second_finding ''/P'' save_world_after =
     (Some (AlreadyExistsError (Errorf ''Finding crash-abc already exists'')), save_world_after) \<and>
   os_ReadFile save_world_after ''/P/.cifuzz-findings/crash-abc/finding.json'' = Inr ''{first}''"
proof -
  have h: "Save (\<lambda>j. ''{first}'') first_finding ''/P'' save_world = (None, save_world_after)"
    by code_simp
  have n: "Name second_finding = Name first_finding"
    by (simp add: second_finding_def first_finding_def)
  have r: "os_ReadFile save_world_after ''/P/.cifuzz-findings/crash-abc/finding.json'' = Inr ''{first}''"
    by code_simp
  have nm: "Name first_finding = ''crash-abc''"
    by (simp add: first_finding_def)
  from Save_twice[OF h n, of "\<lambda>j. ''{second}''"] h n r show ?thesis
    by (simp add: nm)
qed

section \<open>The lock guard\<close>

text \<open>
  C4. In the lock-guarded store \<open>MoveInputFile\<close>, once the lock is held: when the inner
  operation fails, its error is what the caller gets, also when releasing the lock fails
  as well, and the failure to release is only logged; when the inner operation succeeds
  and the release fails, the failure to release is returned; and on every path the
  release is attempted, after whatever the inner operation logged.
\<close>

theorem MoveInputFile_lock_guard:
  assumes "lock_acquired f pd w = Some w3"
  shows "(\<forall>e. fst (moveInputFile f pd sd w3) = Some e \<longrightarrow>
            fst (MoveInputFile f pd sd w) = Some e \<and>
            (unlock_fails w \<longrightarrow>
               last (events (snd (snd (MoveInputFile f pd sd w)))) =
                 LogError (SyscallError EBADF))) \<and>
         (fst (moveInputFile f pd sd w3) = None \<longrightarrow>
            fst (MoveInputFile f pd sd w) =
              (if unlock_fails w then Some (SyscallError EBADF) else None)) \<and>
         (\<exists>mid rest.
            events (snd (snd (MoveInputFile f pd sd w))) =
              events w @ [Locked (lock_path f pd)] @ mid @ [UnlockCalled (lock_path f pd)] @ rest \<and>
            UnlockCalled (lock_path f pd) \<notin> set mid \<and>
            rest = (if fst (moveInputFile f pd sd w3) \<noteq> None \<and> unlock_fails w
                    then [LogError (SyscallError EBADF)] else []))"
proof -
  obtain err f' w4 where inner: "moveInputFile f pd sd w3 = (err, f', w4)"
    by (cases "moveInputFile f pd sd w3")
  note env3 = lock_acquired_env[OF assms]
  note env4 = moveInputFile_env[OF inner]
  have uf: "unlock_fails w4 = unlock_fails w" using env3 env4 by simp
  from env4 env3 obtain mid where mid: "events w4 = events w @ [Locked (lock_path f pd)] @ mid"
    and midD: "UnlockCalled (lock_path f pd) \<notin> set mid"
    by auto
  have M: "MoveInputFile f pd sd w =
     (if err = None
      then ((if unlock_fails w then Some (SyscallError EBADF) else None), f',
            w4\<lparr>events := events w4 @ [UnlockCalled (lock_path f pd)]\<rparr>)
      else if unlock_fails w
      then (err, f', w4\<lparr>events := events w4 @ [UnlockCalled (lock_path f pd)] @
                                  [LogError (SyscallError EBADF)]\<rparr>)
      else (err, f', w4\<lparr>events := events w4 @ [UnlockCalled (lock_path f pd)]\<rparr>))"
    using uf by (simp add: MoveInputFile_acquired[OF assms] inner mutex_Unlock_def
        log_Error_def errors_WithStack_def)
  show ?thesis
    using mid midD by (auto simp: M inner)
qed


theorem MoveInputFile_lock_guard_witness:
  "lock_acquired guard_finding ''/P'' guard_world \<noteq> None \<and>
   unlock_fails guard_world \<and>
   fst (MoveInputFile guard_finding ''/P'' ''/corpus'' guard_world) = Some (SyscallError ENOENT) \<and>
   last (events (snd (snd (MoveInputFile guard_finding ''/P'' ''/corpus'' guard_world)))) =
     LogError (SyscallError EBADF)"
proof -
  let ?w3 = "\<lparr>fs = [(''/'', Dir), (''/P'', Dir), (''/P/.cifuzz-findings'', Dir),
                   (''/P/.cifuzz-findings/crash-abc'', Dir),
                   (''/P/.cifuzz-findings/crash-abc/.lock'', File [])],
             workdir = ''/P'', lock_fails = False, unlock_fails = True,
             events = [Locked ''/P/.cifuzz-findings/crash-abc/.lock'']\<rparr>"
  have h: "lock_acquired guard_finding ''/P'' guard_world = Some ?w3"
    by code_simp
  have i: "fst (moveInputFile guard_finding ''/P'' ''/corpus'' ?w3) = Some (SyscallError ENOENT)"
    by code_simp
  have u: "unlock_fails guard_world"
    by (simp add: guard_world_def)
  from MoveInputFile_lock_guard[OF h, of "''/corpus''"] i u show ?thesis
    by (simp add: h)
qed

section \<open>Storing two different inputs\<close>

text \<open>
  C5 (as amended). Two successful stores for the same finding, of two different byte
  sequences that no slot of the finding holds yet, from input files that are not
  themselves corpus entries \<open><corpus>/<name>-<k>\<close> of the finding: the first takes a
  slot \<open>i\<close>, the second a later slot \<open>j\<close>; after the second store both slot files are
  there, with the first and the second bytes, and each has its corpus entry, named by
  the name of the finding and the number of the slot, the two names being different. In
  a directory without slot files the slots are 1 and 2.
\<close>

theorem two_inputs_two_slots:
  assumes first: "MoveInputFile f pd sd w = (None, f', w1)"
      and bytes1: "os_ReadFile w (InputFile f) = Inr b1"
      and second: "MoveInputFile g pd sd w1 = (None, g', w2)"
      and name: "Name g = Name f"
      and bytes2: "os_ReadFile w1 (InputFile g) = Inr b2"
      and diff: "b1 \<noteq> b2"
      and fresh: "\<forall>k. os_ReadFile w (slot_path (finding_dir f pd) k) \<noteq> Inr b1 \<and>
                     os_ReadFile w (slot_path (finding_dir f pd) k) \<noteq> Inr b2"
      and apart1: "\<forall>k. abs_path (workdir w) (InputFile f) \<noteq> abs_path (workdir w) (seed_path f sd k)"
      and apart2: "\<forall>k. abs_path (workdir w) (InputFile g) \<noteq> abs_path (workdir w) (seed_path f sd k)"
  shows "\<exists>i j. 1 \<le> i \<and> i < j \<and>
           os_ReadFile w2 (slot_path (finding_dir f pd) i) = Inr b1 \<and>
           os_ReadFile w2 (slot_path (finding_dir f pd) j) = Inr b2 \<and>
           seedPath f' = filepath_Join [sd, Name f @ ''-'' @ strconv_Itoa i] \<and>
           seedPath g' = filepath_Join [sd, Name f @ ''-'' @ strconv_Itoa j] \<and>
           seedPath f' \<noteq> seedPath g' \<and>
           os_ReadFile w2 (seedPath f') = Inr b1 \<and>
           os_ReadFile w2 (seedPath g') = Inr b2 \<and>
           ((\<forall>k c. os_ReadFile w (slot_path (finding_dir f pd) k) \<noteq> Inr c) \<longrightarrow> i = 1 \<and> j = 2)"
proof -
  let ?d = "finding_dir f pd"
  let ?K = "abs_path (workdir w)"
  have gd: "finding_dir g pd = ?d" and gl: "lock_path g pd = lock_path f pd"
    and gs: "seed_path g sd k = seed_path f sd k" for k
    using name by (simp_all add: finding_dir_def lock_path_def seed_path_def)
  from fresh have new1: "\<forall>k. os_ReadFile w (slot_path ?d k) \<noteq> Inr b1" by simp
  \<comment> \<open>the first store\<close>
  from first bytes1 new1 apart1 obtain i where
    i1: "1 \<le> i"
    and sp1: "seedPath f' = seed_path f sd i"
    and slot1: "os_ReadFile w1 (slot_path ?d i) = Inr b1"
    and seed1: "os_ReadFile w1 (seed_path f sd i) = Inr b1"
    and before1: "\<forall>k. 1 \<le> k \<and> k < i \<longrightarrow> (\<exists>c. os_ReadFile w (slot_path ?d k) = Inr c)"
    and keep1: "\<forall>k c. map_of (fs w) k = Some (File c) \<and> k \<noteq> ?K (InputFile f) \<and>
            k \<noteq> ?K (slot_path ?d i) \<and> k \<noteq> ?K (seed_path f sd i) \<longrightarrow>
            map_of (fs w1) k = Some (File c)"
    and from1: "\<forall>k c. map_of (fs w1) k = Some (File c) \<longrightarrow>
            map_of (fs w) k = Some (File c) \<or> k = ?K (lock_path f pd) \<or>
            (c = b1 \<and> (k = ?K (slot_path ?d i) \<or> k = ?K (seed_path f sd i)))"
    and wd1: "workdir w1 = workdir w"
    by (rule store_call)
  \<comment> \<open>a slot file after the first store was there before, unless it is the new slot\<close>
  have slot_from1: "os_ReadFile w (slot_path ?d k) = Inr c \<or> (c = b1 \<and> k = i)"
    if "os_ReadFile w1 (slot_path ?d k) = Inr c" for k c
  proof -
    from that have pc: "path_check (slot_path ?d k) = None"
      and m: "map_of (fs w1) (?K (slot_path ?d k)) = Some (File c)"
      by (simp_all add: ReadFile_iff lookup_def wd1)
    from from1 m have "map_of (fs w) (?K (slot_path ?d k)) = Some (File c) \<or>
        ?K (slot_path ?d k) = ?K (lock_path f pd) \<or>
        (c = b1 \<and> (?K (slot_path ?d k) = ?K (slot_path ?d i) \<or>
                  ?K (slot_path ?d k) = ?K (seed_path f sd i)))"
      by blast
    moreover have "?K (slot_path ?d k) \<noteq> ?K (lock_path f pd)"
      by (rule slot_key_not_lock)
    moreover have "k = i" if "?K (slot_path ?d k) = ?K (slot_path ?d i)"
      using that by (rule slot_key_inj)
    moreover have "k = i" if "?K (slot_path ?d k) = ?K (seed_path f sd i)"
      using that seed_key_not_slot[of i k "workdir w" f sd ?d] by auto
    ultimately show ?thesis
      using pc by (auto simp: ReadFile_iff lookup_def)
  qed
  have new2: "\<forall>k. os_ReadFile w1 (slot_path (finding_dir g pd) k) \<noteq> Inr b2"
    using slot_from1 fresh diff by (auto simp: gd)
  have apart2': "\<forall>k. abs_path (workdir w1) (InputFile g) \<noteq> abs_path (workdir w1) (seed_path g sd k)"
    using apart2 by (simp add: wd1 gs)
  \<comment> \<open>the second store\<close>
  from second bytes2 new2 apart2' obtain j where
    j1: "1 \<le> j"
    and sp2: "seedPath g' = seed_path f sd j"
    and slot2: "os_ReadFile w2 (slot_path ?d j) = Inr b2"
    and seed2: "os_ReadFile w2 (seed_path f sd j) = Inr b2"
    and before2: "\<forall>k. 1 \<le> k \<and> k < j \<longrightarrow> (\<exists>c. os_ReadFile w1 (slot_path ?d k) = Inr c)"
    and free2: "\<forall>c. os_ReadFile w1 (slot_path ?d j) \<noteq> Inr c"
    and keep2: "\<forall>k c. map_of (fs w1) k = Some (File c) \<and> k \<noteq> ?K (InputFile g) \<and>
            k \<noteq> ?K (slot_path ?d j) \<and> k \<noteq> ?K (seed_path f sd j) \<longrightarrow>
            map_of (fs w2) k = Some (File c)"
    and wd2: "workdir w2 = workdir w"
    by (rule store_call[where sd = sd]) (simp_all add: gd gs gl wd1)
  from bytes1 have in1: "map_of (fs w) (?K (InputFile f)) = Some (File b1)"
    by (simp add: ReadFile_iff lookup_def)
  from bytes2 have in2: "map_of (fs w1) (?K (InputFile g)) = Some (File b2)"
    by (simp add: ReadFile_iff lookup_def wd1)
  have ij: "i \<noteq> j" using slot1 free2 by auto
  \<comment> \<open>the second slot comes after the first\<close>
  have "\<not> j < i"
  proof
    assume lt: "j < i"
    with before1 j1 obtain c where c: "os_ReadFile w (slot_path ?d j) = Inr c" by blast
    with fresh have cb: "c \<noteq> b1" by auto
    from c have pc: "path_check (slot_path ?d j) = None"
      and m: "map_of (fs w) (?K (slot_path ?d j)) = Some (File c)"
      by (simp_all add: ReadFile_iff lookup_def)
    have "?K (slot_path ?d j) \<noteq> ?K (InputFile f)" using m in1 cb by auto
    moreover have "?K (slot_path ?d j) \<noteq> ?K (slot_path ?d i)"
      using ij by (auto dest: slot_key_inj)
    moreover have "?K (slot_path ?d j) \<noteq> ?K (seed_path f sd i)"
      using seed_key_not_slot[OF ij, of "workdir w" f sd ?d] by auto
    ultimately have "map_of (fs w1) (?K (slot_path ?d j)) = Some (File c)"
      using keep1 m by blast
    then have "os_ReadFile w1 (slot_path ?d j) = Inr c"
      using pc by (simp add: ReadFile_iff lookup_def wd1)
    with free2 show False by simp
  qed
  with ij have lt: "i < j" by simp
  \<comment> \<open>the first slot and the first corpus entry are still there after the second store\<close>
  have slot1': "os_ReadFile w2 (slot_path ?d i) = Inr b1"
  proof -
    from slot1 have pc: "path_check (slot_path ?d i) = None"
      and m: "map_of (fs w1) (?K (slot_path ?d i)) = Some (File b1)"
      by (simp_all add: ReadFile_iff lookup_def wd1)
    have "?K (slot_path ?d i) \<noteq> ?K (InputFile g)" using m in2 diff by auto
    moreover have "?K (slot_path ?d i) \<noteq> ?K (slot_path ?d j)"
      using ij by (auto dest: slot_key_inj)
    moreover have "?K (slot_path ?d i) \<noteq> ?K (seed_path f sd j)"
      using seed_key_not_slot[of j i "workdir w" f sd ?d] ij by auto
    ultimately have "map_of (fs w2) (?K (slot_path ?d i)) = Some (File b1)"
      using keep2 m by blast
    then show ?thesis using pc by (simp add: ReadFile_iff lookup_def wd2)
  qed
  have seed1': "os_ReadFile w2 (seed_path f sd i) = Inr b1"
  proof -
    from seed1 have pc: "path_check (seed_path f sd i) = None"
      and m: "map_of (fs w1) (?K (seed_path f sd i)) = Some (File b1)"
      by (simp_all add: ReadFile_iff lookup_def wd1)
    have "?K (seed_path f sd i) \<noteq> ?K (InputFile g)" using m in2 diff by auto
    moreover have "?K (seed_path f sd i) \<noteq> ?K (slot_path ?d j)"
      by (rule seed_key_not_slot[OF ij])
    moreover have "?K (seed_path f sd i) \<noteq> ?K (seed_path f sd j)"
      using ij by (auto dest: seed_key_inj)
    ultimately have "map_of (fs w2) (?K (seed_path f sd i)) = Some (File b1)"
      using keep2 m by blast
    then show ?thesis using pc by (simp add: ReadFile_iff lookup_def wd2)
  qed
  have names: "seed_path f sd i \<noteq> seed_path f sd j"
    using ij seed_key_inj[of "workdir w" f sd i j] by auto
  \<comment> \<open>in a directory without slot files the slots are 1 and 2\<close>
  have ones: "i = 1 \<and> j = 2" if none: "\<forall>k c. os_ReadFile w (slot_path ?d k) \<noteq> Inr c"
  proof -
    have i: "i = 1"
    proof (rule ccontr)
      assume "i \<noteq> 1"
      with i1 have "1 \<le> (1::nat) \<and> 1 < i" by simp
      with before1 none show False by blast
    qed
    have "j = 2"
    proof (rule ccontr)
      assume "j \<noteq> 2"
      with lt i have "1 \<le> (2::nat) \<and> 2 < j" by simp
      with before2 obtain c where "os_ReadFile w1 (slot_path ?d 2) = Inr c" by blast
      from slot_from1[OF this] none i show False by simp
    qed
    with i show ?thesis by simp
  qed
  show ?thesis
    using i1 lt slot1' slot2 sp1 sp2 names seed1' seed2 ones
    by (intro exI[of _ i] exI[of _ j]) (simp add: seed_path_def)
qed

theorem two_inputs_two_slots_witness:
  "MoveInputFile store_finding ''/P'' ''/corpus'' store_world = (None, moved_finding, stored_world) \<and>
   os_ReadFile store_world (InputFile store_finding) = Inr ''AAAA'' \<and>
   MoveInputFile other_bytes_finding ''/P'' ''/corpus'' stored_world =
     (None, other_moved_finding, twice_stored_world) \<and>
   os_ReadFile stored_world (InputFile other_bytes_finding) = Inr ''BBBB'' \<and>
   os_ReadFile twice_stored_world (slot_path (finding_dir store_finding ''/P'') 1) = Inr ''AAAA'' \<and>
   os_ReadFile twice_stored_world (slot_path (finding_dir store_finding ''/P'') 2) = Inr ''BBBB'' \<and>
   seedPath moved_finding = ''/corpus/crash-abc-1'' \<and>
   seedPath other_moved_finding = ''/corpus/crash-abc-2'' \<and>
   os_ReadFile twice_stored_world (seedPath moved_finding) = Inr ''AAAA'' \<and>
   os_ReadFile twice_stored_world (seedPath other_moved_finding) = Inr ''BBBB''"
proof -
  have h1: "MoveInputFile store_finding ''/P'' ''/corpus'' store_world =
      (None, moved_finding, stored_world)"
    by code_simp
  have h2: "os_ReadFile store_world (InputFile store_finding) = Inr ''AAAA''"
    by code_simp
  have h3: "MoveInputFile other_bytes_finding ''/P'' ''/corpus'' stored_world =
      (None, other_moved_finding, twice_stored_world)"
    by code_simp
  have h4: "Name other_bytes_finding = Name store_finding"
    by code_simp
  have h5: "os_ReadFile stored_world (InputFile other_bytes_finding) = Inr ''BBBB''"
    by code_simp
  have h6: "''AAAA'' \<noteq> ''BBBB''"
    by simp
  have h7: "\<forall>k. os_ReadFile store_world (slot_path (finding_dir store_finding ''/P'') k) \<noteq> Inr ''AAAA'' \<and>
      os_ReadFile store_world (slot_path (finding_dir store_finding ''/P'') k) \<noteq> Inr ''BBBB''"
    by (simp add: store_world_no_slots)
  have k1: "abs_path (workdir store_world) (InputFile store_finding) = ''/tmp/in1''"
    by code_simp
  have k2: "abs_path (workdir store_world) (InputFile other_bytes_finding) = ''/tmp/in3''"
    by code_simp
  have h8: "\<forall>k. abs_path (workdir store_world) (InputFile store_finding) \<noteq>
      abs_path (workdir store_world) (seed_path store_finding ''/corpus'' k)"
  proof
    fix k
    show "abs_path (workdir store_world) (InputFile store_finding) \<noteq>
      abs_path (workdir store_world) (seed_path store_finding ''/corpus'' k)"
      unfolding k1 by (rule no_dash_neq) (simp, rule seed_key_dash)
  qed
  have h9: "\<forall>k. abs_path (workdir store_world) (InputFile other_bytes_finding) \<noteq>
      abs_path (workdir store_world) (seed_path store_finding ''/corpus'' k)"
  proof
    fix k
    show "abs_path (workdir store_world) (InputFile other_bytes_finding) \<noteq>
      abs_path (workdir store_world) (seed_path store_finding ''/corpus'' k)"
      unfolding k2 by (rule no_dash_neq) (simp, rule seed_key_dash)
  qed
  have none: "\<forall>k c. os_ReadFile store_world (slot_path (finding_dir store_finding ''/P'') k) \<noteq> Inr c"
    by (simp add: store_world_no_slots)
  from two_inputs_two_slots[OF h1 h2 h3 h4 h5 h6 h7 h8 h9] none
  have "os_ReadFile twice_stored_world (slot_path (finding_dir store_finding ''/P'') 1) = Inr ''AAAA'' \<and>
        os_ReadFile twice_stored_world (slot_path (finding_dir store_finding ''/P'') 2) = Inr ''BBBB'' \<and>
        os_ReadFile twice_stored_world (seedPath moved_finding) = Inr ''AAAA'' \<and>
        os_ReadFile twice_stored_world (seedPath other_moved_finding) = Inr ''BBBB''"
    by auto
  moreover have "seedPath moved_finding = ''/corpus/crash-abc-1''"
    "seedPath other_moved_finding = ''/corpus/crash-abc-2''"
    by (simp_all add: moved_finding_def other_moved_finding_def)
  ultimately show ?thesis
    using h1 h2 h3 h5 by simp
qed

text \<open>
  The claim as stated fails, without the condition on the input files: when the input
  of the first store is the file \<open>/corpus/crash-abc-1\<close>, the place of its own corpus
  entry, the copy to the corpus is a copy of the file onto itself and the removal of
  the source that follows removes the corpus entry. Both stores succeed, the slots 1
  and 2 hold the two byte sequences, the first finding refers to
  \<open>/corpus/crash-abc-1\<close>, and there is no such file.
\<close>

theorem corpus_entry_lost:
  "Name other_bytes_finding = Name corpus_input_finding \<and>
   os_ReadFile corpus_input_world (InputFile corpus_input_finding) = Inr ''AAAA'' \<and>
   fst (MoveInputFile corpus_input_finding ''/P'' ''/corpus'' corpus_input_world) = None \<and>
   seedPath (fst (snd (MoveInputFile corpus_input_finding ''/P'' ''/corpus'' corpus_input_world))) =
     ''/corpus/crash-abc-1'' \<and>
   os_ReadFile (snd (snd (MoveInputFile corpus_input_finding ''/P'' ''/corpus'' corpus_input_world)))
     (InputFile other_bytes_finding) = Inr ''BBBB'' \<and>
   fst (MoveInputFile other_bytes_finding ''/P'' ''/corpus''
          (snd (snd (MoveInputFile corpus_input_finding ''/P'' ''/corpus'' corpus_input_world)))) = None \<and>
   seedPath (fst (snd (MoveInputFile other_bytes_finding ''/P'' ''/corpus''
          (snd (snd (MoveInputFile corpus_input_finding ''/P'' ''/corpus'' corpus_input_world)))))) =
     ''/corpus/crash-abc-2'' \<and>
   os_ReadFile
     (snd (snd (MoveInputFile other_bytes_finding ''/P'' ''/corpus''
        (snd (snd (MoveInputFile corpus_input_finding ''/P'' ''/corpus'' corpus_input_world))))))
     ''/P/.cifuzz-findings/crash-abc/crashing-input-1'' = Inr ''AAAA'' \<and>
   os_ReadFile
     (snd (snd (MoveInputFile other_bytes_finding ''/P'' ''/corpus''
        (snd (snd (MoveInputFile corpus_input_finding ''/P'' ''/corpus'' corpus_input_world))))))
     ''/P/.cifuzz-findings/crash-abc/crashing-input-2'' = Inr ''BBBB'' \<and>
   os_Stat
     (snd (snd (MoveInputFile other_bytes_finding ''/P'' ''/corpus''
        (snd (snd (MoveInputFile corpus_input_finding ''/P'' ''/corpus'' corpus_input_world))))))
     ''/corpus/crash-abc-1'' = Inl (SyscallError ENOENT)"
  by code_simp

section \<open>The rewriting of the logs\<close>

text \<open>
  C6. After a store that succeeds and is not a duplicate, every line of the logs of the
  finding is the old line with the instances of the original input path replaced
  (\<open>strings.ReplaceAll\<close>: the instances found from the left, which do not overlap) by
  the path of the slot relative to the working directory. A line that does not contain
  the original path is unchanged, and where the original path first occurs in a line it
  is replaced and the rest of the line is treated the same way.
\<close>

theorem moveInputFile_rewrites_logs:
  assumes "find_slot w (finding_dir f pd) (InputFile f) 1 = FreeSlot i path"
      and "moveInputFile f pd sd w = (None, f', w')"
  shows "\<exists>relPath.
           filepath_Rel (workdir w) path = Inr relPath \<and>
           Logs f' = map (\<lambda>line. strings_ReplaceAll line (InputFile f) relPath) (Logs f) \<and>
           (\<forall>line \<in> set (Logs f).
              \<not> strings_Contains line (InputFile f) \<longrightarrow>
              strings_ReplaceAll line (InputFile f) relPath = line) \<and>
           (\<forall>pre post.
              \<not> strings_Contains (pre @ butlast (InputFile f)) (InputFile f) \<longrightarrow>
              strings_ReplaceAll (pre @ InputFile f @ post) (InputFile f) relPath =
                pre @ relPath @ strings_ReplaceAll post (InputFile f) relPath)"
proof -
  from assms obtain w1 relPath rel where
    c1: "copy_Copy (InputFile f) path w = (None, w1)"
    and rp: "filepath_Rel (workdir w) path = Inr relPath"
    and f': "f' = f\<lparr>seedPath := seed_path f sd i,
             Logs := map (\<lambda>line. strings_ReplaceAll line (InputFile f) relPath) (Logs f),
             InputFile := rel\<rparr>"
    by (rule moveInputFile_stored)
  from copy_Copy_src[OF c1] have ne: "InputFile f \<noteq> []"
    by (auto simp: path_check_def split: if_splits)
  show ?thesis
    using rp f' ne by (auto simp: ReplaceAll_absent ReplaceAll_first)
qed

theorem moveInputFile_rewrites_logs_witness:
  "find_slot store_world (finding_dir store_finding ''/P'') (InputFile store_finding) 1 =
     FreeSlot 1 ''/P/.cifuzz-findings/crash-abc/crashing-input-1'' \<and>
   moveInputFile store_finding ''/P'' ''/corpus'' store_world = (None, moved_finding, moved_world) \<and>
   Logs store_finding = [''artifact /tmp/in1 written'', ''done''] \<and>
   Logs moved_finding =
     [''artifact .cifuzz-findings/crash-abc/crashing-input-1 written'', ''done'']"
proof -
  have h1: "find_slot store_world (finding_dir store_finding ''/P'') (InputFile store_finding) 1 =
     FreeSlot 1 ''/P/.cifuzz-findings/crash-abc/crashing-input-1''"
    by code_simp
  have h2: "moveInputFile store_finding ''/P'' ''/corpus'' store_world =
     (None, moved_finding, moved_world)"
    by code_simp
  have r: "filepath_Rel (workdir store_world) ''/P/.cifuzz-findings/crash-abc/crashing-input-1'' =
     Inr ''.cifuzz-findings/crash-abc/crashing-input-1''"
    by code_simp
  have l: "map (\<lambda>line. strings_ReplaceAll line (InputFile store_finding)
             ''.cifuzz-findings/crash-abc/crashing-input-1'') (Logs store_finding) =
           [''artifact .cifuzz-findings/crash-abc/crashing-input-1 written'', ''done'']"
    by code_simp
  have l0: "Logs store_finding = [''artifact /tmp/in1 written'', ''done'']"
    by (simp add: store_finding_def)
  from moveInputFile_rewrites_logs[OF h1 h2] r l
  have "Logs moved_finding =
     [''artifact .cifuzz-findings/crash-abc/crashing-input-1 written'', ''done'']"
    by auto
  with h1 h2 l0 show ?thesis by simp
qed

section \<open>The rewriting of the input file field\<close>

text \<open>
  C7. After a store that succeeds and is not a duplicate, the field \<open>InputFile\<close> of the
  finding is the path of the chosen slot (slot \<open>i\<close> of the finding's directory, with \<open>i\<close>
  at least 1) made relative to the project directory by \<open>filepath.Rel\<close>.
\<close>

theorem moveInputFile_rewrites_InputFile:
  assumes "find_slot w (finding_dir f pd) (InputFile f) 1 = FreeSlot i path"
      and "moveInputFile f pd sd w = (None, f', w')"
  shows "1 \<le> i \<and> path = slot_path (finding_dir f pd) i \<and>
         filepath_Rel pd path = Inr (InputFile f')"
proof -
  from assms obtain relPath rel where
    rl: "filepath_Rel pd path = Inr rel"
    and f': "f' = f\<lparr>seedPath := seed_path f sd i,
             Logs := map (\<lambda>line. strings_ReplaceAll line (InputFile f) relPath) (Logs f),
             InputFile := rel\<rparr>"
    by (rule moveInputFile_stored)
  from find_slot_FreeSlot[OF assms(1)] rl f' show ?thesis by simp
qed

theorem moveInputFile_rewrites_InputFile_witness:
  "find_slot store_world (finding_dir store_finding ''/P'') (InputFile store_finding) 1 =
     FreeSlot 1 ''/P/.cifuzz-findings/crash-abc/crashing-input-1'' \<and>
   moveInputFile store_finding ''/P'' ''/corpus'' store_world = (None, moved_finding, moved_world) \<and>
   slot_path (finding_dir store_finding ''/P'') 1 =
     ''/P/.cifuzz-findings/crash-abc/crashing-input-1'' \<and>
   filepath_Rel ''/P'' ''/P/.cifuzz-findings/crash-abc/crashing-input-1'' =
     Inr (InputFile moved_finding) \<and>
   InputFile moved_finding = ''.cifuzz-findings/crash-abc/crashing-input-1''"
proof -
  have h1: "find_slot store_world (finding_dir store_finding ''/P'') (InputFile store_finding) 1 =
     FreeSlot 1 ''/P/.cifuzz-findings/crash-abc/crashing-input-1''"
    by code_simp
  have h2: "moveInputFile store_finding ''/P'' ''/corpus'' store_world =
     (None, moved_finding, moved_world)"
    by code_simp
  have i: "InputFile moved_finding = ''.cifuzz-findings/crash-abc/crashing-input-1''"
    by (simp add: moved_finding_def)
  note t = moveInputFile_rewrites_InputFile[OF h1 h2]
  note s = t[THEN conjunct2, THEN conjunct1]
  note r = t[THEN conjunct2, THEN conjunct2]
  show ?thesis
    by (intro conjI h1 h2 s[symmetric] r i)
qed

section \<open>Listing the findings\<close>

text \<open>
  C8. \<open>ListFindings\<close> returns the empty list and no error when the findings directory
  does not exist. Whenever it returns a list, the list is ordered by \<open>CreatedAt\<close> with
  the newest first, and it holds exactly the findings loaded from the entries of the
  findings directory, findings of equal time in the order of the entries.
\<close>

theorem ListFindings_order:
  "(os_Stat w (findings_root projectDir) = Inl (SyscallError ENOENT) \<longrightarrow>
      ListFindings unmarshal projectDir w = Inr []) \<and>
   (\<forall>res. ListFindings unmarshal projectDir w = Inr res \<longrightarrow>
      sorted_wrt (\<lambda>a b. CreatedAt b \<le> CreatedAt a) res \<and>
      (\<forall>entries. os_ReadDir w (findings_root projectDir) = Inr entries \<longrightarrow>
         (\<exists>loaded. map Inr loaded = map (\<lambda>e. LoadFinding unmarshal projectDir e w) entries \<and>
                   mset res = mset loaded \<and>
                   (\<forall>t. filter (\<lambda>f. CreatedAt f = t) res = filter (\<lambda>f. CreatedAt f = t) loaded))))"
proof (intro conjI allI impI)
  assume "os_Stat w (findings_root projectDir) = Inl (SyscallError ENOENT)"
  then have "os_ReadDir w (findings_root projectDir) = Inl (SyscallError ENOENT)"
    by (simp add: os_ReadDir_def)
  then show "ListFindings unmarshal projectDir w = Inr []"
    by (auto simp: ListFindings_def findings_root_def Let_def)
next
  fix res
  assume L: "ListFindings unmarshal projectDir w = Inr res"
  let ?lt = "\<lambda>a b. Time_After (CreatedAt a) (CreatedAt b)"
  have lt: "?lt = (\<lambda>a b. CreatedAt b < CreatedAt a)"
    by (simp add: Time_After_def)
  show "sorted_wrt (\<lambda>a b. CreatedAt b \<le> CreatedAt a) res"
  proof (cases "os_ReadDir w (findings_root projectDir)")
    case (Inl e)
    with L have "res = []"
      by (auto simp: ListFindings_def findings_root_def Let_def split: if_splits)
    then show ?thesis by simp
  next
    case (Inr entries)
    with L obtain xs where "res = sort_SliceStable ?lt xs"
      by (auto simp: ListFindings_def findings_root_def Let_def split: sum.splits)
    then show ?thesis
      using SliceStable_sorted[of CreatedAt xs] by (simp add: lt)
  qed
  fix entries
  assume R: "os_ReadDir w (findings_root projectDir) = Inr entries"
  with L obtain xs where xs: "load_entries unmarshal projectDir w [] entries = Inr xs"
    and res: "res = sort_SliceStable ?lt xs"
    by (auto simp: ListFindings_def findings_root_def Let_def split: sum.splits)
  from load_entries_acc[OF xs]
  have m: "map Inr xs = map (\<lambda>e. LoadFinding unmarshal projectDir e w) entries"
    by simp
  show "\<exists>loaded. map Inr loaded = map (\<lambda>e. LoadFinding unmarshal projectDir e w) entries \<and>
                   mset res = mset loaded \<and>
                   (\<forall>t. filter (\<lambda>f. CreatedAt f = t) res = filter (\<lambda>f. CreatedAt f = t) loaded)"
    using m res SliceStable_stable[of CreatedAt _ xs]
    by (intro exI[of _ xs]) (simp add: lt)
qed

theorem ListFindings_order_witness:
  "os_Stat list_world (findings_root ''/Q'') = Inl (SyscallError ENOENT) \<and>
   ListFindings toy_unmarshal ''/Q'' list_world = Inr [] \<and>
   ListFindings toy_unmarshal ''/P'' list_world =
     Inr [empty_Finding\<lparr>Name := ''xxx'', CreatedAt := 3\<rparr>,
          empty_Finding\<lparr>Name := ''x'', CreatedAt := 1\<rparr>] \<and>
   sorted_wrt (\<lambda>a b. CreatedAt b \<le> CreatedAt a)
     [empty_Finding\<lparr>Name := ''xxx'', CreatedAt := 3\<rparr>,
      empty_Finding\<lparr>Name := ''x'', CreatedAt := 1\<rparr>]"
proof -
  have a: "os_Stat list_world (findings_root ''/Q'') = Inl (SyscallError ENOENT)"
    by code_simp
  have l: "ListFindings toy_unmarshal ''/P'' list_world =
     Inr [empty_Finding\<lparr>Name := ''xxx'', CreatedAt := 3\<rparr>,
          empty_Finding\<lparr>Name := ''x'', CreatedAt := 1\<rparr>]"
    by code_simp
  note e = ListFindings_order[of list_world "''/Q''" toy_unmarshal, THEN conjunct1, THEN mp, OF a]
  note s = ListFindings_order[of list_world "''/P''" toy_unmarshal, THEN conjunct2, THEN spec,
      THEN mp, OF l, THEN conjunct1]
  show ?thesis
    by (intro conjI a e l s)
qed

section \<open>The encoding of a finding without a time\<close>

text \<open>
  C9. The claim is that the encoding written by \<open>Save\<close> leaves out every empty optional
  field. The field \<open>CreatedAt\<close> carries the tag \<open>omitempty\<close>, but its type is a struct,
  which \<open>encoding/json\<close> never takes for empty: for a finding whose time is the zero
  time, the key \<open>created_at\<close> is written all the same. (\<open>InputFile\<close> has no tag and is
  always written, under its Go name.)
\<close>

theorem created_at_not_omitted:
  "CreatedAt untimed_finding = 0 \<and> InputFile untimed_finding = [] \<and>
   json_MarshalIndent render untimed_finding =
     Inr (render (JObject
       [(''name'', JString ''crash-abc''), (''type'', JString ''CRASH''),
        (''InputFile'', JString []), (''created_at'', JTime 0)]))"
  by (simp add: untimed_finding_def json_MarshalIndent_def Finding_json_def empty_Finding_def
      omitempty_def Time_MarshalJSON_def nanoseconds_per_day_def ErrorType_CRASH_def)

section \<open>The getters on a nil pointer\<close>

text \<open>
  C10. Calling \<open>GetDetails\<close> or \<open>GetSeedPath\<close> on a nil pointer to a finding does not
  fail and returns the empty string.
\<close>

theorem getters_on_nil: "GetDetails None = [] \<and> GetSeedPath None = []"
  by (simp add: GetDetails_def GetSeedPath_def)

end
